theory Spec2Isabelle
  imports Main "HOL-Library.AList" "HOL-Library.Sublist"
begin

section \<open>Text primitives of the migration script\<close>

text \<open>
  The script \<^verbatim>\<open>latex_migration.py\<close> works on Python strings. A string is modelled as a
  \<^typ>\<open>string\<close> (a list of characters), an offset as a \<^typ>\<open>nat\<close>, a slice
  \<^verbatim>\<open>s[a:b]\<close> with \<open>take\<close> and \<open>drop\<close> (both clamp at the end of the string, as
  Python slices do for offsets that are not negative).
\<close>

definition bs :: char where
  "bs = CHR 0x5C"

definition nl :: char where
  "nl = CHR 0x0A"

text \<open>The literal matched by the pattern \<^verbatim>\<open>r'\\end\{document\}'\<close>.\<close>

definition end_doc :: string where
  "end_doc = bs # ''end{document}''"

definition starts_with :: "string \<Rightarrow> string \<Rightarrow> bool" where
  "starts_with p s = (take (length p) s = p)"

text \<open>
  \<^verbatim>\<open>str.strip()\<close>: the characters below 256 for which \<^verbatim>\<open>str.isspace()\<close> holds.
\<close>

definition is_space :: "char \<Rightarrow> bool" where
  "is_space c = (c \<in> set [CHR 0x09, CHR 0x0A, CHR 0x0B, CHR 0x0C, CHR 0x0D,
                          CHR 0x1C, CHR 0x1D, CHR 0x1E, CHR 0x1F, CHR 0x20,
                          CHR 0x85, CHR 0xA0])"

definition strip :: "string \<Rightarrow> string" where
  "strip s = rev (dropWhile is_space (rev (dropWhile is_space s)))"

text \<open>\<^verbatim>\<open>s.split('\n')\<close> and \<^verbatim>\<open>'\n'.join(ls)\<close>.\<close>

fun split_nl :: "string \<Rightarrow> string list" where
  "split_nl [] = [[]]"
| "split_nl (c # cs) =
     (if c = nl then [] # split_nl cs
      else (case split_nl cs of
              [] \<Rightarrow> [[c]]
            | l # ls \<Rightarrow> (c # l) # ls))"

fun join_nl :: "string list \<Rightarrow> string" where
  "join_nl [] = []"
| "join_nl [l] = l"
| "join_nl (l # ls) = l @ nl # join_nl ls"

text \<open>
  \<^verbatim>\<open>re.search\<close> of a literal: whether it occurs, and the offset of its leftmost
  occurrence.
\<close>

fun search_lit :: "string \<Rightarrow> string \<Rightarrow> nat option" where
  "search_lit p [] = (if p = [] then Some 0 else None)"
| "search_lit p (c # cs) =
     (if starts_with p (c # cs) then Some 0 else map_option Suc (search_lit p cs))"

text \<open>
  \<^verbatim>\<open>re.finditer\<close> of a literal: the (start, end) offsets of its occurrences from left to
  right, the scan resuming at the end of each match (\<open>skip\<close> counts the characters of the
  last match still to be passed over).
\<close>

fun finditer_from :: "string \<Rightarrow> nat \<Rightarrow> nat \<Rightarrow> string \<Rightarrow> (nat \<times> nat) list" where
  "finditer_from p skip pos [] = []"
| "finditer_from p skip pos (c # cs) =
     (if 0 < skip then finditer_from p (skip - 1) (Suc pos) cs
      else if starts_with p (c # cs)
        then (pos, pos + length p) # finditer_from p (length p - 1) (Suc pos) cs
      else finditer_from p 0 (Suc pos) cs)"

definition finditer_lit :: "string \<Rightarrow> string \<Rightarrow> (nat \<times> nat) list" where
  "finditer_lit p s = finditer_from p 0 0 s"

section \<open>Terminator Normalizer (post-processing of \<^verbatim>\<open>migrate_content\<close>)\<close>

text \<open>
  \<^verbatim>\<open>migrated_content[:match.start()] + migrated_content[match.end():]\<close>, the body of the
  loop over \<^verbatim>\<open>matches[:-1]\<close>: the offsets are those of the scan made before the loop.
\<close>

definition remove_match :: "string \<Rightarrow> nat \<times> nat \<Rightarrow> string" where
  "remove_match s m = take (fst m) s @ drop (snd m) s"

text \<open>
  Lines 512-531: the deduplication of \<^verbatim>\<open>\end{document}\<close>. The result is the text and
  \<^verbatim>\<open>last_match\<close>.
\<close>

definition dedup_end_document :: "string \<Rightarrow> string \<times> (nat \<times> nat) option" where
  "dedup_end_document mc =
     (let matches = finditer_lit end_doc mc in
      if 1 < length matches then
        (let mc' = foldl remove_match mc (butlast matches);
             matches' = finditer_lit end_doc mc'
         in (mc', if matches' = [] then None else Some (last matches')))
      else if length matches = 1 then (mc, Some (hd matches))
      else (mc, None))"

text \<open>
  The pattern \<^verbatim>\<open>r'\\(section|subsection|subsubsection|paragraph)(\*?)\{'\<close> searched in
  the text after the terminator.
\<close>

definition trailing_commands :: "string list" where
  "trailing_commands = [''section'', ''subsection'', ''subsubsection'', ''paragraph'']"

definition command_at :: "string \<Rightarrow> string \<Rightarrow> bool" where
  "command_at name s =
     (starts_with (bs # name @ ''*{'') s \<or> starts_with (bs # name @ ''{'') s)"

fun section_after :: "string \<Rightarrow> bool" where
  "section_after [] = False"
| "section_after (c # cs) =
     (list_ex (\<lambda>name. command_at name (c # cs)) trailing_commands \<or> section_after cs)"

text \<open>Lines 533-546: content found after the terminator is moved before it.\<close>

definition relocate_trailing :: "string \<Rightarrow> (nat \<times> nat) option \<Rightarrow> string" where
  "relocate_trailing mc last_match =
     (case last_match of
        None \<Rightarrow> mc
      | Some (ms, me) \<Rightarrow>
          (let after_end = drop me mc in
           if section_after after_end then
             (let before_end = take ms mc; content_after = strip after_end in
              if content_after \<noteq> [] then
                before_end @ [nl] @ content_after @ [nl, nl]
                  @ take (me - ms) (drop ms mc) @ [nl]
              else mc)
           else mc))"

definition normalize_terminator :: "string \<Rightarrow> string" where
  "normalize_terminator mc =
     (let (mc', last_match) = dedup_end_document mc in relocate_trailing mc' last_match)"

section \<open>Marker Scanner\<close>

text \<open>
  \<^verbatim>\<open>_compile_section_patterns\<close>: the five patterns
  \<^verbatim>\<open>r'\\NAME(\*?)\{([^}]+)\}'\<close>, in the order of the dictionary. A pattern is
  determined by its command name, so the dictionary is modelled by the list of its keys.
\<close>

definition sections_pattern :: "string list" where
  "sections_pattern =
     [''chapter'', ''section'', ''subsection'', ''subsubsection'', ''paragraph'']"

text \<open>\<^verbatim>\<open>_get_section_level_rank\<close>, with its default 999.\<close>

definition get_section_level_rank :: "string \<Rightarrow> nat" where
  "get_section_level_rank lvl =
     (case map_of [(''chapter'', 0), (''section'', 1), (''subsection'', 2),
                   (''subsubsection'', 3), (''paragraph'', 4)] lvl of
        Some r \<Rightarrow> r
      | None \<Rightarrow> 999)"

text \<open>
  A match of \<^verbatim>\<open>\\NAME(\*?)\{([^}]+)\}\<close> anchored at the head of \<open>s\<close>; the result is
  group 2. The star is optional; the title is the longest run of characters other than
  the closing brace, it is not empty and a closing brace follows it.
\<close>

definition match_marker_at :: "string \<Rightarrow> string \<Rightarrow> string option" where
  "match_marker_at name s =
     (let cmd = bs # name in
      if starts_with cmd s then
        (let r = drop (length cmd) s;
             r' = (if starts_with ''*'' r then tl r else r)
         in if starts_with ''{'' r' then
              (let body = takeWhile (\<lambda>c. c \<noteq> CHR ''}'') (tl r');
                   rest = dropWhile (\<lambda>c. c \<noteq> CHR ''}'') (tl r')
               in if body \<noteq> [] \<and> rest \<noteq> [] then Some body else None)
            else None)
      else None)"

text \<open>\<^verbatim>\<open>pattern.search(line)\<close>: group 2 of the leftmost match.\<close>

fun search_marker :: "string \<Rightarrow> string \<Rightarrow> string option" where
  "search_marker name [] = None"
| "search_marker name (c # cs) =
     (case match_marker_at name (c # cs) of
        Some t \<Rightarrow> Some t
      | None \<Rightarrow> search_marker name cs)"

text \<open>
  The inner loop \<^verbatim>\<open>for level, pattern in self.sections_pattern.items()\<close> with its
  \<^verbatim>\<open>break\<close>: the first kind, in the order of the dictionary, that matches the line.
\<close>

fun first_match :: "string list \<Rightarrow> string \<Rightarrow> (string \<times> string) option" where
  "first_match [] line = None"
| "first_match (lvl # rest) line =
     (case search_marker lvl line of
        Some t \<Rightarrow> Some (lvl, t)
      | None \<Rightarrow> first_match rest line)"

record occurrence =
  o_title :: string
  o_level :: string
  o_rank :: nat
  o_line_idx :: nat
  o_line :: string

text \<open>The first pass of \<^verbatim>\<open>extract_sections\<close> and \<^verbatim>\<open>extract_sections_content_only\<close>.\<close>

fun scan_sections :: "nat \<Rightarrow> string list \<Rightarrow> occurrence list" where
  "scan_sections idx [] = []"
| "scan_sections idx (line # rest) =
     (case first_match sections_pattern line of
        Some (lvl, t) \<Rightarrow>
          \<lparr>o_title = strip t, o_level = lvl, o_rank = get_section_level_rank lvl,
           o_line_idx = idx, o_line = strip line\<rparr> # scan_sections (Suc idx) rest
      | None \<Rightarrow> scan_sections (Suc idx) rest)"

section \<open>Hierarchy Builder\<close>

record section_entry =
  s_content :: string
  s_level :: string
  s_line :: string
  s_rank :: nat

text \<open>\<^verbatim>\<open>lines[a:b]\<close> for offsets that are not negative.\<close>

definition slice :: "nat \<Rightarrow> nat \<Rightarrow> 'a list \<Rightarrow> 'a list" where
  "slice a b xs = take (b - a) (drop a xs)"

text \<open>
  The inner loop of \<^verbatim>\<open>extract_sections\<close> over \<^verbatim>\<open>all_sections[i+1:]\<close>: the line of the
  next occurrence whose rank is not greater, or the number of lines.
\<close>

fun end_full :: "nat \<Rightarrow> nat \<Rightarrow> occurrence list \<Rightarrow> nat" where
  "end_full n current_rank [] = n"
| "end_full n current_rank (x # xs) =
     (if o_rank x \<le> current_rank then o_line_idx x else end_full n current_rank xs)"

text \<open>
  The inner loop of \<^verbatim>\<open>extract_sections_content_only\<close>: it breaks at the first
  following occurrence.
\<close>

fun end_content_only :: "nat \<Rightarrow> occurrence list \<Rightarrow> nat" where
  "end_content_only n [] = n"
| "end_content_only n (x # xs) = o_line_idx x"

definition entry_of :: "string list \<Rightarrow> occurrence \<Rightarrow> nat \<Rightarrow> section_entry" where
  "entry_of lines x end_idx =
     \<lparr>s_content = strip (join_nl (slice (o_line_idx x + 1) end_idx lines)),
      s_level = o_level x, s_line = o_line x, s_rank = o_rank x\<rparr>"

text \<open>
  The second pass. The dictionary \<^verbatim>\<open>sections\<close> is an association list;
  \<^verbatim>\<open>sections[title] = ...\<close> is \<^const>\<open>AList.update\<close>, which replaces the value of a key
  that is present and appends a new key otherwise.
\<close>

fun build_full ::
  "string list \<Rightarrow> occurrence list \<Rightarrow> (string \<times> section_entry) list
     \<Rightarrow> (string \<times> section_entry) list" where
  "build_full lines [] sections = sections"
| "build_full lines (x # xs) sections =
     build_full lines xs
       (AList.update (o_title x)
          (entry_of lines x (end_full (length lines) (o_rank x) xs)) sections)"

fun build_content_only ::
  "string list \<Rightarrow> occurrence list \<Rightarrow> (string \<times> section_entry) list
     \<Rightarrow> (string \<times> section_entry) list" where
  "build_content_only lines [] sections = sections"
| "build_content_only lines (x # xs) sections =
     build_content_only lines xs
       (AList.update (o_title x)
          (entry_of lines x (end_content_only (length lines) xs)) sections)"

definition extract_sections :: "string \<Rightarrow> (string \<times> section_entry) list" where
  "extract_sections latex_content =
     (let lines = split_nl latex_content
      in build_full lines (scan_sections 0 lines) [])"

definition extract_sections_content_only :: "string \<Rightarrow> (string \<times> section_entry) list" where
  "extract_sections_content_only latex_content =
     (let lines = split_nl latex_content
      in build_content_only lines (scan_sections 0 lines) [])"

section \<open>Marker Locator\<close>

text \<open>
  A match of \<^verbatim>\<open>\\NAME\*?\{TITLE\}\<close> (the title escaped, so literal) anchored at the head
  of \<open>s\<close>; the result is the length of the match.
\<close>

definition match_title_at :: "string \<Rightarrow> string \<Rightarrow> string \<Rightarrow> nat option" where
  "match_title_at name title s =
     (let cmd = bs # name; arg = ''{'' @ title @ ''}'' in
      if starts_with (cmd @ ''*'' @ arg) s then Some (length cmd + 1 + length arg)
      else if starts_with (cmd @ arg) s then Some (length cmd + length arg)
      else None)"

text \<open>\<^verbatim>\<open>re.search(pattern, template_content)\<close>: start and end of the leftmost match.\<close>

fun search_title :: "string \<Rightarrow> string \<Rightarrow> string \<Rightarrow> (nat \<times> nat) option" where
  "search_title name title [] = None"
| "search_title name title (c # cs) =
     (case match_title_at name title (c # cs) of
        Some n \<Rightarrow> Some (0, n)
      | None \<Rightarrow> map_option (\<lambda>(a, b). (Suc a, Suc b)) (search_title name title cs))"

definition should_stop :: "bool \<Rightarrow> nat \<Rightarrow> nat \<Rightarrow> bool" where
  "should_stop include_children check_rank current_rank =
     (if include_children then check_rank \<le> current_rank else True)"

text \<open>
  The loop over \<^verbatim>\<open>self.sections_pattern.items()\<close> inside the line loop: it has no
  \<^verbatim>\<open>break\<close>, so the line is a boundary when some kind matches it and stops.
\<close>

definition boundary_marker :: "bool \<Rightarrow> nat \<Rightarrow> string \<Rightarrow> bool" where
  "boundary_marker include_children current_rank line =
     list_ex (\<lambda>lvl. search_marker lvl line \<noteq> None
                \<and> should_stop include_children (get_section_level_rank lvl) current_rank)
       sections_pattern"

text \<open>
  The loop \<^verbatim>\<open>for line_idx, line in enumerate(lines)\<close>; \<open>None\<close> when it runs to its end
  without a \<^verbatim>\<open>return\<close>.
\<close>

fun scan_end ::
  "bool \<Rightarrow> nat \<Rightarrow> nat \<Rightarrow> string list \<Rightarrow> nat \<Rightarrow> string list \<Rightarrow> nat option" where
  "scan_end include_children current_rank start_pos lines line_idx [] = None"
| "scan_end include_children current_rank start_pos lines line_idx (line # rest) =
     (if search_lit end_doc line \<noteq> None
        then Some (start_pos + length (join_nl (take line_idx lines)))
      else if boundary_marker include_children current_rank line
        then Some (start_pos + length (join_nl (take line_idx lines)))
      else scan_end include_children current_rank start_pos lines (Suc line_idx) rest)"

definition section_end :: "string \<Rightarrow> nat \<Rightarrow> string \<Rightarrow> bool \<Rightarrow> nat" where
  "section_end template_content start_pos level include_children =
     (let lines = split_nl (drop start_pos template_content) in
      case scan_end include_children (get_section_level_rank level) start_pos lines 0 lines of
        Some end_pos \<Rightarrow> end_pos
      | None \<Rightarrow> length template_content)"

text \<open>
  The loop \<^verbatim>\<open>for pattern, level in patterns\<close> of \<^verbatim>\<open>find_section_in_template\<close>: the
  first kind whose pattern occurs anywhere in the text decides.
\<close>

fun find_in_patterns ::
  "string list \<Rightarrow> string \<Rightarrow> string \<Rightarrow> bool \<Rightarrow> (nat \<times> nat \<times> string) option" where
  "find_in_patterns [] template_content section_title include_children = None"
| "find_in_patterns (level # rest) template_content section_title include_children =
     (case search_title level section_title template_content of
        Some (match_start, start_pos) \<Rightarrow>
          Some (start_pos,
                section_end template_content start_pos level include_children, level)
      | None \<Rightarrow> find_in_patterns rest template_content section_title include_children)"

definition find_section_in_template ::
  "string \<Rightarrow> string \<Rightarrow> bool \<Rightarrow> (nat \<times> nat \<times> string) option" where
  "find_section_in_template template_content section_title include_children =
     find_in_patterns sections_pattern template_content section_title include_children"

section \<open>Splice Engine (\<^verbatim>\<open>migrate_content\<close>)\<close>

record replacement =
  r_start :: nat
  r_end :: nat
  r_content :: string
  r_old_section :: string
  r_new_section :: string
  r_type :: string

record creation =
  c_title :: string
  c_content :: string

text \<open>
  The configuration: \<^verbatim>\<open>mapping_mode\<close> (with its default already applied) and the two
  dictionaries, as lists of their items in the order of the dictionary.
\<close>

record config =
  mapping_mode :: string
  section_mapping :: "(string \<times> string) list"
  new_sections_content :: "(string \<times> string) list"

text \<open>Lines 379-414: the loop over \<^verbatim>\<open>section_mapping.items()\<close>.\<close>

fun collect_mapping ::
  "(string \<times> section_entry) list \<Rightarrow> string \<Rightarrow> bool \<Rightarrow> (string \<times> string) list
     \<Rightarrow> replacement list \<Rightarrow> replacement list" where
  "collect_mapping old_sections new_content inc [] replacements = replacements"
| "collect_mapping old_sections new_content inc ((old_section, new_section) # rest)
       replacements =
     (case map_of old_sections old_section of
        Some entry \<Rightarrow>
          (case find_section_in_template new_content new_section inc of
             Some (start_pos, end_pos, found_level) \<Rightarrow>
               collect_mapping old_sections new_content inc rest
                 (replacements @
                    [\<lparr>r_start = start_pos, r_end = end_pos,
                      r_content = strip (s_content entry),
                      r_old_section = old_section, r_new_section = new_section,
                      r_type = ''section_mapping''\<rparr>])
           | None \<Rightarrow> collect_mapping old_sections new_content inc rest replacements)
      | None \<Rightarrow> collect_mapping old_sections new_content inc rest replacements)"

text \<open>Lines 416-444: the loop over \<^verbatim>\<open>new_sections_content.items()\<close>.\<close>

fun collect_new ::
  "string \<Rightarrow> bool \<Rightarrow> (string \<times> string) list \<Rightarrow> replacement list \<times> creation list
     \<Rightarrow> replacement list \<times> creation list" where
  "collect_new new_content inc [] acc = acc"
| "collect_new new_content inc ((section_title, content) # rest)
       (replacements, sections_to_create) =
     (case find_section_in_template new_content section_title inc of
        Some (start_pos, end_pos, found_level) \<Rightarrow>
          collect_new new_content inc rest
            (replacements @
               [\<lparr>r_start = start_pos, r_end = end_pos, r_content = strip content,
                 r_old_section = ''NEW_CONTENT'', r_new_section = section_title,
                 r_type = ''new_content''\<rparr>],
             sections_to_create)
      | None \<Rightarrow>
          collect_new new_content inc rest
            (replacements,
             sections_to_create @ [\<lparr>c_title = section_title, c_content = strip content\<rparr>]))"

text \<open>
  \<^verbatim>\<open>replacements.sort(key=lambda x: x['start'], reverse=True)\<close>: a stable sort, equal
  keys keep their order. It is the stable ascending sort on the negated key.
\<close>

definition sort_descending :: "replacement list \<Rightarrow> replacement list" where
  "sort_descending replacements = sort_key (\<lambda>r. - int (r_start r)) replacements"

text \<open>Lines 457-459: one replacement, at its offsets as they are.\<close>

definition apply_replacement :: "string \<Rightarrow> replacement \<Rightarrow> string" where
  "apply_replacement migrated_content r =
     take (r_start r) migrated_content @ [nl] @ r_content r @ [nl]
       @ drop (r_end r) migrated_content"

definition apply_replacements :: "string \<Rightarrow> replacement list \<Rightarrow> string" where
  "apply_replacements new_content replacements =
     foldl apply_replacement new_content (sort_descending replacements)"

text \<open>Lines 481-495: the level of a section to create, and its text.\<close>

definition created_level ::
  "(string \<times> section_entry) list \<Rightarrow> (string \<times> section_entry) list \<Rightarrow> string \<Rightarrow> string"
  where
  "created_level new_sections old_sections section_title =
     (case map_of new_sections section_title of
        Some e \<Rightarrow> s_level e
      | None \<Rightarrow>
          (case map_of old_sections section_title of
             Some e \<Rightarrow> s_level e
           | None \<Rightarrow> ''section''))"

definition created_text ::
  "(string \<times> section_entry) list \<Rightarrow> (string \<times> section_entry) list \<Rightarrow> creation \<Rightarrow> string"
  where
  "created_text new_sections old_sections section_info =
     [nl, bs] @ created_level new_sections old_sections (c_title section_info)
       @ ''{'' @ c_title section_info @ ''}'' @ [nl] @ c_content section_info @ [nl]"

text \<open>Lines 466-507: the sections to create are inserted before the first terminator.\<close>

definition create_sections ::
  "(string \<times> section_entry) list \<Rightarrow> (string \<times> section_entry) list \<Rightarrow> creation list
     \<Rightarrow> string \<Rightarrow> string" where
  "create_sections new_sections old_sections sections_to_create migrated_content =
     (if sections_to_create = [] then migrated_content
      else (case search_lit end_doc migrated_content of
              Some insert_pos \<Rightarrow>
                take insert_pos migrated_content
                  @ concat (map (created_text new_sections old_sections) sections_to_create)
                  @ [nl] @ drop insert_pos migrated_content
            | None \<Rightarrow> migrated_content))"

definition extract_by_mode :: "string \<Rightarrow> string \<Rightarrow> (string \<times> section_entry) list" where
  "extract_by_mode mode latex_content =
     (if mode = ''granular'' then extract_sections_content_only latex_content
      else extract_sections latex_content)"

text \<open>The two collecting loops: the replacements and the sections to create.\<close>

definition collect ::
  "config \<Rightarrow> string \<Rightarrow> string \<Rightarrow> replacement list \<times> creation list" where
  "collect cfg old_content new_content =
     (let old_sections = extract_by_mode (mapping_mode cfg) old_content;
          inc = (mapping_mode cfg \<noteq> ''granular'')
      in collect_new new_content inc (new_sections_content cfg)
           (collect_mapping old_sections new_content inc (section_mapping cfg) [], []))"

text \<open>
  \<^verbatim>\<open>migrate_content\<close> from the two texts read to the text written: the logging, the
  backup and the report are left out.
\<close>

definition migrate_content :: "config \<Rightarrow> string \<Rightarrow> string \<Rightarrow> string" where
  "migrate_content cfg old_content new_content =
     (let old_sections = extract_by_mode (mapping_mode cfg) old_content;
          new_sections = extract_by_mode (mapping_mode cfg) new_content;
          (replacements, sections_to_create) = collect cfg old_content new_content;
          migrated_content = apply_replacements new_content replacements;
          migrated_content =
            create_sections new_sections old_sections sections_to_create migrated_content
      in normalize_terminator migrated_content)"

section \<open>Reference splice and span predicates\<close>

text \<open>
  The reference the descending splice is compared with, written from the specification:
  the operations are taken in ascending order of \<open>r_start\<close> and, after each edit, the
  offsets of the following operations are recomputed, here by carrying the accumulated
  change of length \<open>shift\<close>. An edit replaces \<^verbatim>\<open>text[start:end]\<close> by the content between
  two newlines, as \<^const>\<open>apply_replacement\<close> does.
\<close>

definition replaced_length_change :: "replacement \<Rightarrow> int" where
  "replaced_length_change r =
     int (length (r_content r)) + 2 - (int (r_end r) - int (r_start r))"

fun apply_ascending :: "int \<Rightarrow> string \<Rightarrow> replacement list \<Rightarrow> string" where
  "apply_ascending shift text [] = text"
| "apply_ascending shift text (r # rs) =
     apply_ascending (shift + replaced_length_change r)
       (take (nat (int (r_start r) + shift)) text @ [nl] @ r_content r @ [nl]
          @ drop (nat (int (r_end r) + shift)) text) rs"

definition reference_splice :: "string \<Rightarrow> replacement list \<Rightarrow> string" where
  "reference_splice text replacements =
     apply_ascending 0 text (sort_key r_start replacements)"

text \<open>Every span is a span of the text: \<open>start \<le> end \<le> length text\<close>.\<close>

definition spans_within :: "string \<Rightarrow> replacement list \<Rightarrow> bool" where
  "spans_within text rs =
     list_all (\<lambda>r. r_start r \<le> r_end r \<and> r_end r \<le> length text) rs"

text \<open>The half-open spans \<open>[start, end)\<close> are pairwise non-overlapping.\<close>

fun non_overlapping :: "replacement list \<Rightarrow> bool" where
  "non_overlapping [] = True"
| "non_overlapping (r # rs) =
     (list_all (\<lambda>x. r_end r \<le> r_start x \<or> r_end x \<le> r_start r) rs
      \<and> non_overlapping rs)"

text \<open>
  The text both splices produce from operations in ascending order, from offset \<open>pos\<close>
  on: the gaps of the original text with the contents between them.
\<close>

fun spliced :: "nat \<Rightarrow> string \<Rightarrow> replacement list \<Rightarrow> string" where
  "spliced pos text [] = drop pos text"
| "spliced pos text (r # rs) =
     take (r_start r - pos) (drop pos text) @ [nl] @ r_content r @ [nl]
       @ spliced (r_end r) text rs"

text \<open>
  A line at which the scan of \<^const>\<open>scan_end\<close> returns: it holds the terminator, or a
  marker that stops under the policy.
\<close>

definition stop_line :: "bool \<Rightarrow> nat \<Rightarrow> string \<Rightarrow> bool" where
  "stop_line inc cur line =
     (search_lit end_doc line \<noteq> None \<or> boundary_marker inc cur line)"

section \<open>Example inputs\<close>

text \<open>The concrete documents and operations at which the theorems below are evaluated.\<close>

definition nested_doc :: string where
  "nested_doc = bs # ''section{A}'' @ [nl] @ '' text1'' @ [nl] @ bs # ''subsection{B}'' @ [nl] @ '' text2''"

definition duplicate_doc :: string where
  "duplicate_doc = bs # ''section{R}'' @ [nl] @ ''a'' @ [nl] @ bs # ''section{R}'' @ [nl] @ ''b''"

definition occ_R :: "nat \<Rightarrow> occurrence" where
  "occ_R i = \<lparr>o_title = ''R'', o_level = ''section'', o_rank = 1, o_line_idx = i,
              o_line = bs # ''section{R}''\<rparr>"

definition op_insert :: replacement where
  "op_insert = \<lparr>r_start = 5, r_end = 5, r_content = ''xyz'', r_old_section = ''a'',
     r_new_section = ''A'', r_type = ''section_mapping''\<rparr>"

definition op_right :: replacement where
  "op_right = \<lparr>r_start = 5, r_end = 8, r_content = ''Q'', r_old_section = ''b'',
     r_new_section = ''B'', r_type = ''section_mapping''\<rparr>"

definition op_left :: replacement where
  "op_left = \<lparr>r_start = 1, r_end = 3, r_content = ''xyz'', r_old_section = ''a'',
     r_new_section = ''A'', r_type = ''section_mapping''\<rparr>"

definition old_intro :: string where
  "old_intro = bs # ''section{Intro}'' @ [nl] @ ''Hello''"

definition new_intro :: string where
  "new_intro = bs # ''section{Introduction}'' @ [nl] @ ''old body'' @ [nl] @ end_doc @ [nl]"

definition cfg_thanks :: config where
  "cfg_thanks = \<lparr>mapping_mode = ''full_hierarchy'', section_mapping = [],
                  new_sections_content = [(''Acknowledgments'', ''Thanks.'')]\<rparr>"

definition cfg_empty :: config where
  "cfg_empty = \<lparr>mapping_mode = ''full_hierarchy'', section_mapping = [],
                 new_sections_content = []\<rparr>"

definition two_kinds_text :: string where
  "two_kinds_text = bs # ''subsection{X}'' @ [nl] @ ''sub body'' @ [nl]
                      @ bs # ''section{X}'' @ [nl] @ ''sec body''"

definition same_line_text :: string where
  "same_line_text = bs # ''section{A}'' @ '' tail '' @ bs # ''section{B}''"

definition tail_text :: string where
  "tail_text = bs # ''section{A}'' @ '' tail'' @ [nl] @ ''body'' @ [nl]
                 @ bs # ''section{B}'' @ [nl] @ ''x''"

definition stray_chapter_text :: string where
  "stray_chapter_text = ''a'' @ end_doc @ [nl] @ bs # ''chapter{Stray}'' @ [nl] @ ''x''"

section \<open>Lemmas on splicing\<close>

lemma descending_spliced:
  "sorted_wrt (\<lambda>a b. r_end a \<le> r_start b) rs \<Longrightarrow> spans_within text rs
   \<Longrightarrow> \<forall>r\<in>set rs. p \<le> r_start r
   \<Longrightarrow> drop p (foldl apply_replacement text (rev rs)) = spliced p text rs
       \<and> take p (foldl apply_replacement text (rev rs)) = take p text"
proof (induction rs arbitrary: p)
  case Nil
  then show ?case by simp
next
  case (Cons r rs)
  let ?M = "foldl apply_replacement text (rev rs)"
  have v: "r_start r \<le> r_end r" "r_end r \<le> length text" "p \<le> r_start r"
    using Cons.prems by (simp_all add: spans_within_def)
  have ih: "drop (r_end r) ?M = spliced (r_end r) text rs \<and> take (r_end r) ?M = take (r_end r) text"
    using Cons.prems by (intro Cons.IH) (auto simp: spans_within_def)
  have "take (r_start r) ?M = take (r_start r) (take (r_end r) ?M)"
    using v by (simp add: min_def)
  also have "\<dots> = take (r_start r) text" using ih v by (simp add: min_def)
  finally have t: "take (r_start r) ?M = take (r_start r) text" .
  have eq: "foldl apply_replacement text (rev (r # rs))
        = take (r_start r) text @ [nl] @ r_content r @ [nl] @ spliced (r_end r) text rs"
    using ih t by (simp add: apply_replacement_def)
  have l: "length (take (r_start r) text) = r_start r" using v by simp
  show ?case unfolding eq using v l
    by (simp add: drop_take min_def)
qed

lemma ascending_spliced:
  "sorted_wrt (\<lambda>a b. r_end a \<le> r_start b) rs \<Longrightarrow> spans_within text rs
   \<Longrightarrow> \<forall>r\<in>set rs. p \<le> r_start r \<Longrightarrow> p \<le> length text
   \<Longrightarrow> shift = int (length done) - int p
   \<Longrightarrow> apply_ascending shift (done @ drop p text) rs = done @ spliced p text rs"
proof (induction rs arbitrary: p shift "done")
  case Nil
  then show ?case by simp
next
  case (Cons r rs)
  have v: "r_start r \<le> r_end r" "r_end r \<le> length text" "p \<le> r_start r"
    using Cons.prems by (simp_all add: spans_within_def)
  let ?done = "done @ take (r_start r - p) (drop p text) @ [nl] @ r_content r @ [nl]"
  have s: "nat (int (r_start r) + shift) = length done + (r_start r - p)"
    and e: "nat (int (r_end r) + shift) = length done + (r_end r - p)"
    using v Cons.prems(5) by auto
  have step: "take (nat (int (r_start r) + shift)) (done @ drop p text) @ [nl] @ r_content r @ [nl]
          @ drop (nat (int (r_end r) + shift)) (done @ drop p text) = ?done @ drop (r_end r) text"
    unfolding s e using v by simp
  have sh: "shift + replaced_length_change r = int (length ?done) - int (r_end r)"
    using v Cons.prems(5) by (simp add: replaced_length_change_def)
  have "apply_ascending (shift + replaced_length_change r) (?done @ drop (r_end r) text) rs
        = ?done @ spliced (r_end r) text rs"
    using Cons.prems v sh by (intro Cons.IH) (auto simp: spans_within_def)
  then show ?case using step by simp
qed


lemma sort_descending_rev:
  assumes "distinct (map r_start rs)"
  shows "rev (sort_descending rs) = sort_key r_start rs"
proof (rule map_sorted_distinct_set_unique[where f = r_start])
  have inj: "inj_on r_start (set rs)" using assms by (simp add: distinct_map)
  show "inj_on r_start (set (rev (sort_descending rs)) \<union> set (sort_key r_start rs))"
    using inj by (simp add: sort_descending_def)
  have "sorted (map (\<lambda>r. - int (r_start r)) (sort_descending rs))"
    by (simp add: sort_descending_def)
  then have "sorted_wrt (\<lambda>a b. r_start b \<le> r_start a) (sort_descending rs)"
    by (simp add: sorted_map)
  then show "sorted (map r_start (rev (sort_descending rs)))"
    by (simp add: sorted_map sorted_wrt_rev)
  have d: "distinct rs" using assms by (simp add: distinct_map)
  show "distinct (map r_start (rev (sort_descending rs)))"
    using d inj by (simp add: distinct_map sort_descending_def)
  show "sorted (map r_start (sort_key r_start rs))" by simp
  show "distinct (map r_start (sort_key r_start rs))"
    using d inj by (simp add: distinct_map)
  show "set (rev (sort_descending rs)) = set (sort_key r_start rs)"
    by (simp add: sort_descending_def)
qed

lemma non_overlapping_set:
  "non_overlapping rs \<Longrightarrow> distinct rs \<Longrightarrow> a \<in> set rs \<Longrightarrow> b \<in> set rs \<Longrightarrow> a \<noteq> b
   \<Longrightarrow> r_end a \<le> r_start b \<or> r_end b \<le> r_start a"
  by (induction rs) (auto simp: list_all_iff)

lemma ascending_chain:
  assumes no: "non_overlapping rs" and ds: "distinct (map r_start rs)"
    and within: "spans_within text rs"
  shows "sorted_wrt (\<lambda>a b. r_end a \<le> r_start b) (sort_key r_start rs)"
  unfolding sorted_wrt_iff_nth_less
proof (intro allI impI)
  fix i j
  assume ij: "i < j" and j: "j < length (sort_key r_start rs)"
  let ?ys = "sort_key r_start rs"
  have d: "distinct rs" and inj: "inj_on r_start (set rs)"
    using ds by (simp_all add: distinct_map)
  have mem: "?ys ! i \<in> set rs" "?ys ! j \<in> set rs"
    using ij j by (metis nth_mem set_sort order.strict_trans)+
  have ne: "?ys ! i \<noteq> ?ys ! j"
    using d ij j by (simp add: nth_eq_iff_index_eq)
  have "sorted (map r_start ?ys)" by simp
  then have "r_start (?ys ! i) \<le> r_start (?ys ! j)"
    using ij j by (simp add: sorted_map sorted_wrt_iff_nth_less)
  moreover have "r_start (?ys ! i) \<noteq> r_start (?ys ! j)"
    using inj mem ne by (auto dest: inj_onD)
  ultimately have lt: "r_start (?ys ! i) < r_start (?ys ! j)" by simp
  have "r_start (?ys ! j) \<le> r_end (?ys ! j)"
    using within mem by (simp add: spans_within_def list_all_iff)
  with lt non_overlapping_set[OF no d mem ne]
  show "r_end (?ys ! i) \<le> r_start (?ys ! j)" by linarith
qed

section \<open>Lemmas on lines, trimming and the section dictionaries\<close>

lemma strip_prefix: "prefix (strip p) (strip (p @ r))"
proof (cases "\<forall>c\<in>set p. is_space c")
  case True
  then have e: "dropWhile is_space p = []" by simp
  have "strip p = []" by (simp only: strip_def e dropWhile.simps rev.simps)
  then show ?thesis by simp
next
  case False
  let ?p = "dropWhile is_space p"
  have dp: "dropWhile is_space (p @ r) = ?p @ r"
    using False by (auto simp: dropWhile_append)
  have whole: "strip (p @ r) = rev (dropWhile is_space (rev r @ rev ?p))"
    by (simp only: strip_def dp rev_append)
  show ?thesis
  proof (cases "\<forall>c\<in>set (rev r). is_space c")
    case True
    then have "dropWhile is_space (rev r @ rev ?p) = dropWhile is_space (rev ?p)"
      by (intro dropWhile_append2) auto
    then have "strip (p @ r) = strip p"
      unfolding whole by (simp only: strip_def)
    then show ?thesis by simp
  next
    case False
    then obtain c where "c \<in> set (rev r)" "\<not> is_space c" by auto
    then have "dropWhile is_space (rev r @ rev ?p) = dropWhile is_space (rev r) @ rev ?p"
      by (rule dropWhile_append1)
    then have w: "strip (p @ r) = ?p @ rev (dropWhile is_space (rev r))"
      by (simp only: whole rev_append rev_rev_ident)
    have "suffix (dropWhile is_space (rev ?p)) (rev ?p)"
      by (rule suffix_dropWhile)
    then have "prefix (strip p) ?p"
      by (simp add: strip_def suffix_to_prefix)
    then show ?thesis unfolding w by (auto simp: prefix_def)
  qed
qed

lemma join_nl_append:
  "join_nl (xs @ ys) =
     (if xs = [] then join_nl ys else if ys = [] then join_nl xs
      else join_nl xs @ nl # join_nl ys)"
  by (induction xs rule: join_nl.induct) (auto simp: neq_Nil_conv)

lemma join_nl_prefix: "prefix xs ys \<Longrightarrow> prefix (join_nl xs) (join_nl ys)"
  by (auto simp: prefix_def join_nl_append)

lemma slice_prefix: "b \<le> c \<Longrightarrow> prefix (slice a b xs) (slice a c xs)"
  unfolding slice_def
  by (metis diff_le_mono min.absorb1 take_is_prefix take_take)

lemma entry_content_prefix:
  assumes "b \<le> c"
  shows "prefix (s_content (entry_of lines x b)) (s_content (entry_of lines x c))"
proof -
  have "prefix (join_nl (slice (o_line_idx x + 1) b lines))
          (join_nl (slice (o_line_idx x + 1) c lines))"
    by (rule join_nl_prefix[OF slice_prefix[OF assms]])
  then obtain r where "join_nl (slice (o_line_idx x + 1) c lines)
      = join_nl (slice (o_line_idx x + 1) b lines) @ r"
    by (auto simp: prefix_def)
  then show ?thesis using strip_prefix[of "join_nl (slice (o_line_idx x + 1) b lines)" r]
    by (simp add: entry_of_def)
qed

lemma scan_sections_idx:
  "x \<in> set (scan_sections idx ls) \<Longrightarrow> idx \<le> o_line_idx x \<and> o_line_idx x < idx + length ls"
  by (induction ls arbitrary: idx) (fastforce split: option.splits)+

lemma end_full_lower:
  "\<forall>y\<in>set ys. m \<le> o_line_idx y \<Longrightarrow> m \<le> n \<Longrightarrow> m \<le> end_full n r ys"
  by (induction ys) auto

lemma scan_sections_sorted:
  "sorted_wrt (\<lambda>a b. o_line_idx a < o_line_idx b) (scan_sections idx ls)"
proof (induction ls arbitrary: idx)
  case Nil
  then show ?case by simp
next
  case (Cons l ls)
  have "\<forall>y\<in>set (scan_sections (Suc idx) ls). idx < o_line_idx y"
    using scan_sections_idx by fastforce
  then show ?case using Cons.IH[of "Suc idx"] by (auto split: option.splits)
qed

lemma end_content_only_le_full:
  assumes "sorted_wrt (\<lambda>a b. o_line_idx a < o_line_idx b) ys"
    and "\<forall>y\<in>set ys. o_line_idx y \<le> n"
  shows "end_content_only n ys \<le> end_full n r ys"
proof (cases ys)
  case Nil
  then show ?thesis by simp
next
  case (Cons y ys')
  have "o_line_idx y \<le> end_full n r ys'"
    using assms Cons by (intro end_full_lower) auto
  then show ?thesis using Cons by simp
qed

lemma build_full_other:
  "\<forall>y\<in>set ys. o_title y \<noteq> t \<Longrightarrow> map_of (build_full lines ys secs) t = map_of secs t"
  by (induction ys arbitrary: secs) (auto simp: update_conv')

lemma build_content_only_other:
  "\<forall>y\<in>set ys. o_title y \<noteq> t \<Longrightarrow> map_of (build_content_only lines ys secs) t = map_of secs t"
  by (induction ys arbitrary: secs) (auto simp: update_conv')

lemma build_full_last:
  "\<forall>y\<in>set ys. o_title y \<noteq> o_title x \<Longrightarrow>
     map_of (build_full lines (xs @ x # ys) secs) (o_title x)
       = Some (entry_of lines x (end_full (length lines) (o_rank x) ys))"
  by (induction xs arbitrary: secs) (simp_all add: build_full_other update_conv')

lemma build_content_only_last:
  "\<forall>y\<in>set ys. o_title y \<noteq> o_title x \<Longrightarrow>
     map_of (build_content_only lines (xs @ x # ys) secs) (o_title x)
       = Some (entry_of lines x (end_content_only (length lines) ys))"
  by (induction xs arbitrary: secs) (simp_all add: build_content_only_other update_conv')

lemma build_full_distinct:
  "distinct (map fst secs) \<Longrightarrow> distinct (map fst (build_full lines ys secs))"
  by (induction ys arbitrary: secs) (simp_all add: distinct_update)

lemma build_content_only_distinct:
  "distinct (map fst secs) \<Longrightarrow> distinct (map fst (build_content_only lines ys secs))"
  by (induction ys arbitrary: secs) (simp_all add: distinct_update)

lemma distinct_keys_one_entry:
  "distinct (map fst al) \<Longrightarrow> map_of al k = Some v \<Longrightarrow> filter (\<lambda>p. fst p = k) al = [(k, v)]"
proof (induction al)
  case Nil
  then show ?case by simp
next
  case (Cons p al)
  obtain a b where p: "p = (a, b)" by (cases p)
  show ?case
  proof (cases "a = k")
    case True
    then have "k \<notin> fst ` set al" using Cons.prems(1) p by simp
    then have "filter (\<lambda>p. fst p = k) al = []"
      by (auto simp: filter_empty_conv)
    then show ?thesis using True Cons.prems(2) p by simp
  next
    case False
    then show ?thesis using Cons p by simp
  qed
qed

lemma build_content_only_titles:
  "map_of (build_content_only lines ys secs) t = Some e \<Longrightarrow>
     t \<in> o_title ` set ys \<or> map_of secs t = Some e"
proof (induction ys arbitrary: secs)
  case Nil
  then show ?case by simp
next
  case (Cons a ys)
  let ?secs = "AList.update (o_title a)
                 (entry_of lines a (end_content_only (length lines) ys)) secs"
  have "map_of (build_content_only lines ys ?secs) t = Some e"
    using Cons.prems by simp
  then have "t \<in> o_title ` set ys \<or> map_of ?secs t = Some e"
    by (rule Cons.IH)
  then show ?case
    by (cases "t = o_title a") (auto simp: update_conv')
qed

section \<open>Lemmas on the Marker Locator\<close>

lemma scan_end_first_stop:
  assumes "all = pre @ rest" and "length pre \<le> i" and "i < length all"
    and "stop_line inc cur (all ! i)"
    and "\<forall>j. length pre \<le> j \<and> j < i \<longrightarrow> \<not> stop_line inc cur (all ! j)"
  shows "scan_end inc cur s all (length pre) rest = Some (s + length (join_nl (take i all)))"
  using assms
proof (induction rest arbitrary: pre)
  case Nil
  then show ?case by simp
next
  case (Cons l rest)
  have l: "all ! length pre = l" using Cons.prems(1) by simp
  show ?case
  proof (cases "i = length pre")
    case True
    then have "stop_line inc cur l" using Cons.prems(4) l by simp
    then show ?thesis using True by (auto simp: stop_line_def)
  next
    case False
    then have ns: "\<not> stop_line inc cur l" using Cons.prems(2,5) l by force
    have "scan_end inc cur s all (length (pre @ [l])) rest
            = Some (s + length (join_nl (take i all)))"
      using Cons.prems False by (intro Cons.IH) auto
    then show ?thesis using ns by (simp add: stop_line_def)
  qed
qed

lemma scan_end_no_stop:
  "\<forall>l\<in>set rest. \<not> stop_line inc cur l \<Longrightarrow> scan_end inc cur s all idx rest = None"
  by (induction rest arbitrary: idx) (auto simp: stop_line_def)

lemma split_nl_nonempty: "split_nl s \<noteq> []"
  by (induction s) (auto split: list.splits)

lemma join_split_nl: "join_nl (split_nl s) = s"
proof (induction s)
  case Nil
  then show ?case by simp
next
  case (Cons c s)
  obtain l ls where sp: "split_nl s = l # ls"
    using split_nl_nonempty[of s] by (cases "split_nl s") auto
  show ?case using Cons sp by (cases ls) auto
qed

lemma join_nl_take_prefix: "prefix (join_nl (take i ls)) (join_nl ls)"
  by (rule join_nl_prefix[OF take_is_prefix])

lemma join_nl_take_length: "length (join_nl (take i ls)) \<le> length (join_nl ls)"
  using join_nl_take_prefix by (rule prefix_length_le)

lemma scan_end_cases:
  "scan_end inc cur s all idx rest = None
   \<or> (\<exists>i. scan_end inc cur s all idx rest = Some (s + length (join_nl (take i all))))"
  by (induction rest arbitrary: idx) auto

lemma section_end_bounds:
  assumes "s \<le> length text"
  shows "s \<le> section_end text s lvl inc \<and> section_end text s lvl inc \<le> length text"
proof -
  let ?lines = "split_nl (drop s text)"
  have len: "length (join_nl ?lines) = length text - s" by (simp add: join_split_nl)
  show ?thesis
    using scan_end_cases[of inc "get_section_level_rank lvl" s ?lines 0 ?lines]
      join_nl_take_length[of _ ?lines] len assms
    by (auto simp: section_end_def Let_def le_diff_conv2 add.commute)
qed

lemma starts_with_length:
  assumes "starts_with p s"
  shows "length p \<le> length s"
proof -
  have "length (take (length p) s) = length p"
    using assms by (simp add: starts_with_def)
  then show ?thesis by simp
qed

lemma match_title_at_Some:
  assumes "match_title_at k t s = Some n"
  shows "n \<le> length s \<and> 0 < n
     \<and> (take n s = bs # k @ ''*{'' @ t @ ''}'' \<or> take n s = bs # k @ ''{'' @ t @ ''}'')"
proof (cases "starts_with (bs # k @ ''*{'' @ t @ ''}'') s")
  case True
  then have n: "n = length (bs # k @ ''*{'' @ t @ ''}'')"
    using assms by (simp add: match_title_at_def Let_def)
  have "take n s = bs # k @ ''*{'' @ t @ ''}''"
    using True unfolding n starts_with_def .
  then show ?thesis using starts_with_length[OF True] n by simp
next
  case False
  then have st: "starts_with (bs # k @ ''{'' @ t @ ''}'') s"
    using assms by (simp add: match_title_at_def Let_def split: if_splits)
  then have n: "n = length (bs # k @ ''{'' @ t @ ''}'')"
    using assms False by (simp add: match_title_at_def Let_def)
  have "take n s = bs # k @ ''{'' @ t @ ''}''"
    using st unfolding n starts_with_def .
  then show ?thesis using starts_with_length[OF st] n by simp
qed

lemma search_title_Some:
  "search_title k t s = Some (a, b) \<Longrightarrow>
     a \<le> length s \<and> match_title_at k t (drop a s) = Some (b - a) \<and> a \<le> b
     \<and> (\<forall>i<a. match_title_at k t (drop i s) = None)"
proof (induction s arbitrary: a b)
  case Nil
  then show ?case by simp
next
  case (Cons c s)
  show ?case
  proof (cases "match_title_at k t (c # s)")
    case (Some n)
    then show ?thesis using Cons.prems by simp
  next
    case None
    then obtain a' b' where r: "search_title k t s = Some (a', b')" "a = Suc a'" "b = Suc b'"
      using Cons.prems by auto
    have ih: "a' \<le> length s \<and> match_title_at k t (drop a' s) = Some (b' - a') \<and> a' \<le> b'
     \<and> (\<forall>i<a'. match_title_at k t (drop i s) = None)"
      by (rule Cons.IH[OF r(1)])
    have "match_title_at k t (drop i (c # s)) = None" if "i < a" for i
      using that None ih r(2) by (cases i) auto
    then show ?thesis using ih r by simp
  qed
qed

lemma match_title_at_Nil: "match_title_at k t [] = None"
  by (simp add: match_title_at_def starts_with_def)

lemma search_title_None:
  "search_title k t s = None \<Longrightarrow> match_title_at k t (drop i s) = None"
proof (induction s arbitrary: i)
  case Nil
  then show ?case by (simp add: match_title_at_Nil)
next
  case (Cons c s)
  then show ?case by (cases i) (auto split: option.splits)
qed

lemma search_title_bound:
  assumes "search_title k t s = Some (a, b)"
  shows "b \<le> length s"
proof -
  have "a \<le> length s" "match_title_at k t (drop a s) = Some (b - a)" "a \<le> b"
    using search_title_Some[OF assms] by auto
  then show ?thesis using match_title_at_Some[of k t "drop a s" "b - a"] by auto
qed

lemma find_in_patterns_Some:
  "find_in_patterns ks text title inc = Some (s, e, lvl) \<Longrightarrow>
     \<exists>pre post ms. ks = pre @ lvl # post
       \<and> (\<forall>k\<in>set pre. search_title k title text = None)
       \<and> search_title lvl title text = Some (ms, s)
       \<and> e = section_end text s lvl inc"
proof (induction ks)
  case Nil
  then show ?case by simp
next
  case (Cons k ks)
  show ?case
  proof (cases "search_title k title text")
    case None
    then obtain pre post ms where "ks = pre @ lvl # post"
       "\<forall>k\<in>set pre. search_title k title text = None"
       "search_title lvl title text = Some (ms, s)"
       "e = section_end text s lvl inc"
      using Cons by auto
    then show ?thesis using None
      by (intro exI[of _ "k # pre"] exI[of _ post] exI[of _ ms]) simp
  next
    case (Some m)
    then show ?thesis using Cons.prems
      by (intro exI[of _ "[]"] exI[of _ ks] exI[of _ "fst m"]) (auto split: prod.splits)
  qed
qed

lemma find_in_patterns_None:
  "find_in_patterns ks text title inc = None \<longleftrightarrow> (\<forall>k\<in>set ks. search_title k title text = None)"
  by (induction ks) (auto split: option.splits)

lemma hd_split_nl: "hd (split_nl x) = takeWhile (\<lambda>c. c \<noteq> nl) x"
proof (induction x)
  case Nil
  then show ?case by simp
next
  case (Cons c x)
  then show ?case using split_nl_nonempty[of x]
    by (cases "split_nl x") auto
qed

lemma section_end_cases:
  "((\<forall>l\<in>set (split_nl (drop s text)). \<not> stop_line inc (get_section_level_rank lvl) l)
      \<and> section_end text s lvl inc = length text)
   \<or> (\<exists>i<length (split_nl (drop s text)).
         stop_line inc (get_section_level_rank lvl) (split_nl (drop s text) ! i)
         \<and> (\<forall>j<i. \<not> stop_line inc (get_section_level_rank lvl) (split_nl (drop s text) ! j))
         \<and> section_end text s lvl inc
             = s + length (join_nl (take i (split_nl (drop s text)))))"
proof (cases "\<exists>i<length (split_nl (drop s text)).
                 stop_line inc (get_section_level_rank lvl) (split_nl (drop s text) ! i)")
  case False
  let ?lines = "split_nl (drop s text)"
  let ?cur = "get_section_level_rank lvl"
  from False have no: "\<forall>l\<in>set ?lines. \<not> stop_line inc ?cur l"
    by (auto simp: in_set_conv_nth)
  then have "scan_end inc ?cur s ?lines 0 ?lines = None"
    by (rule scan_end_no_stop)
  then have "section_end text s lvl inc = length text"
    by (simp add: section_end_def)
  with no show ?thesis by (intro disjI1 conjI)
next
  case True
  let ?lines = "split_nl (drop s text)"
  let ?cur = "get_section_level_rank lvl"
  define i where "i = (LEAST i. i < length ?lines \<and> stop_line inc ?cur (?lines ! i))"
  have i: "i < length ?lines \<and> stop_line inc ?cur (?lines ! i)"
    unfolding i_def using True by (rule LeastI_ex)
  have least: "\<not> stop_line inc ?cur (?lines ! j)" if "j < i" for j
    using not_less_Least[of j "\<lambda>i. i < length ?lines \<and> stop_line inc ?cur (?lines ! i)"] that i
    unfolding i_def by auto
  have "scan_end inc ?cur s ?lines (length ([]::string list)) ?lines
          = Some (s + length (join_nl (take i ?lines)))"
    using i least by (intro scan_end_first_stop) auto
  then have "section_end text s lvl inc = s + length (join_nl (take i ?lines))"
    by (simp add: section_end_def)
  then show ?thesis using i least by (intro disjI2 exI[of _ i]) simp
qed

lemma find_section_in_template_end:
  "find_section_in_template text title inc = Some (s, e, lvl) \<Longrightarrow>
     e = section_end text s lvl inc"
  using find_in_patterns_Some[of sections_pattern "text" title inc s e lvl]
  by (auto simp: find_section_in_template_def)

lemma find_section_in_template_start:
  assumes "find_section_in_template text title inc = Some (s, e, lvl)"
  shows "\<exists>ms. search_title lvl title text = Some (ms, s)"
  using find_in_patterns_Some[of sections_pattern "text" title inc s e lvl] assms
  by (auto simp: find_section_in_template_def)

lemma take_join_nl_take:
  "take (length (join_nl (take i ls))) (join_nl ls) = join_nl (take i ls)"
  using join_nl_take_prefix[of i ls] by (auto simp: prefix_def)

lemma search_lit_Some:
  "search_lit p s = Some i \<Longrightarrow>
     i \<le> length s \<and> starts_with p (drop i s) \<and> (\<forall>j<i. \<not> starts_with p (drop j s))"
proof (induction s arbitrary: i)
  case Nil
  then show ?case by (simp add: starts_with_def split: if_splits)
next
  case (Cons c s)
  show ?case
  proof (cases "starts_with p (c # s)")
    case True
    then show ?thesis using Cons.prems by simp
  next
    case False
    then obtain i' where i': "search_lit p s = Some i'" "i = Suc i'"
      using Cons.prems by auto
    have ih: "i' \<le> length s \<and> starts_with p (drop i' s)
                \<and> (\<forall>j<i'. \<not> starts_with p (drop j s))"
      by (rule Cons.IH[OF i'(1)])
    have "\<not> starts_with p (drop j (c # s))" if "j < i" for j
      using that False ih i'(2) by (cases j) auto
    then show ?thesis using ih i'(2) by simp
  qed
qed

section \<open>Lemmas on the collecting loops\<close>

lemma collect_mapping_skip:
  assumes "map_of old_sections old_section = None
           \<or> find_section_in_template new_content new_section inc = None"
  shows "collect_mapping old_sections new_content inc
           (pre @ (old_section, new_section) # post) reps
         = collect_mapping old_sections new_content inc (pre @ post) reps"
  using assms
  by (induction pre arbitrary: reps) (auto split: option.splits)

lemma collect_new_keeps:
  "p \<in> set (snd acc) \<Longrightarrow> p \<in> set (snd (collect_new new_content inc entries acc))"
proof (induction entries arbitrary: acc)
  case Nil
  then show ?case by simp
next
  case (Cons a entries)
  obtain t c where a: "a = (t, c)" by (cases a)
  obtain reps creates where acc: "acc = (reps, creates)" by (cases acc)
  show ?case using Cons.prems unfolding a acc
    by (auto split: option.splits intro!: Cons.IH)
qed

lemma collect_new_creates:
  assumes "(t, c) \<in> set entries" and "find_section_in_template new_content t inc = None"
  shows "\<lparr>c_title = t, c_content = strip c\<rparr>
           \<in> set (snd (collect_new new_content inc entries acc))"
  using assms(1)
proof (induction entries arbitrary: acc)
  case Nil
  then show ?case by simp
next
  case (Cons a entries)
  obtain t' c' where a: "a = (t', c')" by (cases a)
  obtain reps creates where acc: "acc = (reps, creates)" by (cases acc)
  show ?case
  proof (cases "a = (t, c)")
    case True
    then show ?thesis using assms(2) unfolding acc
      by (auto intro!: collect_new_keeps)
  next
    case False
    then have "(t, c) \<in> set entries" using Cons.prems by simp
    then show ?thesis unfolding a acc
      by (auto split: option.splits intro!: Cons.IH)
  qed
qed

section \<open>C1: descending splice against the ascending reference\<close>

text \<open>
  Claim C1 says that for operations with pairwise non-overlapping spans the descending
  splice of \<^verbatim>\<open>migrate_content\<close> equals the ascending reference that recomputes offsets.
  As stated it fails when two operations share a start offset, which non-overlapping
  spans allow as soon as one of them is empty: on the text \<^verbatim>\<open>0123456789\<close> the spans
  \<open>[5, 5)\<close> and \<open>[5, 8)\<close> do not overlap, the stable descending sort keeps the insertion
  first, and the second edit then cuts into the text the first one inserted. The
  reference gives the same text in either order of the two operations, and it is not
  the text of the script.
\<close>

theorem splice_equal_starts_counterexample:
  "spans_within ''0123456789'' [op_insert, op_right] \<and> non_overlapping [op_insert, op_right]
   \<and> apply_replacements ''0123456789'' [op_insert, op_right]
        = ''01234'' @ [nl] @ ''Q'' @ [nl] @ ''z'' @ [nl] @ ''56789''
   \<and> reference_splice ''0123456789'' [op_insert, op_right]
        = ''01234'' @ [nl] @ ''xyz'' @ [nl] @ [nl] @ ''Q'' @ [nl] @ ''89''
   \<and> reference_splice ''0123456789'' [op_right, op_insert]
        = ''01234'' @ [nl] @ ''xyz'' @ [nl] @ [nl] @ ''Q'' @ [nl] @ ''89''"
  by (simp add: spans_within_def op_insert_def op_right_def apply_replacements_def
      reference_splice_def sort_descending_def apply_replacement_def
      replaced_length_change_def)

text \<open>
  Claim C1, amended: for operations whose spans lie in the original text
  (\<open>start \<le> end \<le> length\<close>), are pairwise non-overlapping and have pairwise distinct
  start offsets, applying them in descending order of start offset with no adjustment
  yields the same text as the reference that applies them in ascending order and
  recomputes the offsets after each edit.
\<close>

theorem splice_descending_refines_reference:
  assumes "spans_within text rs" and "non_overlapping rs" and "distinct (map r_start rs)"
  shows "apply_replacements text rs = reference_splice text rs"
proof -
  let ?asc = "sort_key r_start rs"
  have chain: "sorted_wrt (\<lambda>a b. r_end a \<le> r_start b) ?asc"
    using assms by (intro ascending_chain) 
  have within: "spans_within text ?asc"
    using assms(1) by (simp add: spans_within_def list_all_iff)
  have "apply_replacements text rs = foldl apply_replacement text (rev ?asc)"
    using sort_descending_rev[OF assms(3)]
    by (metis apply_replacements_def rev_rev_ident)
  also have "\<dots> = drop 0 (foldl apply_replacement text (rev ?asc))" by simp
  also have "\<dots> = spliced 0 text ?asc"
    using descending_spliced[OF chain within, of 0] by simp
  also have "\<dots> = [] @ spliced 0 text ?asc" by simp
  also have "\<dots> = apply_ascending 0 ([] @ drop 0 text) ?asc"
    using ascending_spliced[OF chain within, of 0 0 "[]"] by simp
  finally show ?thesis by (simp add: reference_splice_def)
qed

text \<open>An instance: the spans \<open>[1, 3)\<close> and \<open>[5, 8)\<close> of \<^verbatim>\<open>0123456789\<close>.\<close>

theorem splice_descending_refines_reference_witness:
  "spans_within ''0123456789'' [op_left, op_right] \<and> non_overlapping [op_left, op_right]
   \<and> distinct (map r_start [op_left, op_right])
   \<and> apply_replacements ''0123456789'' [op_left, op_right]
       = reference_splice ''0123456789'' [op_left, op_right]
   \<and> reference_splice ''0123456789'' [op_left, op_right]
       = ''0'' @ [nl] @ ''xyz'' @ [nl] @ ''34'' @ [nl] @ ''Q'' @ [nl] @ ''89''"
  using splice_descending_refines_reference[of "''0123456789''" "[op_left, op_right]"]
  by (simp add: spans_within_def op_left_def op_right_def reference_splice_def
      replaced_length_change_def)

section \<open>C2: terminator deduplication with three terminators\<close>

text \<open>
  Claim C2. With more than one terminator the script means to keep the last one and to
  delete every earlier one, touching nothing else. The loop deletes at the offsets of the
  scan made before the first deletion, so from the second deletion on it cuts 14
  characters too far to the right. On the text \<^verbatim>\<open>\end{document}A\end{document}B\end{document}C\<close>
  the result is \<^verbatim>\<open>A\end{document}}C\<close>: the character \<^verbatim>\<open>B\<close> is lost, the last
  terminator is cut down to its closing brace, and the terminator that is kept is the
  second one.
\<close>

theorem dedup_three_terminators:
  "fst (dedup_end_document (end_doc @ ''A'' @ end_doc @ ''B'' @ end_doc @ ''C''))
     = ''A'' @ end_doc @ ''}C''"
  by (simp add: dedup_end_document_def finditer_lit_def end_doc_def starts_with_def
      remove_match_def bs_def)

text \<open>With two terminators the single deletion is at a valid offset (Scenario C).\<close>

lemma dedup_two_terminators:
  "fst (dedup_end_document (''A'' @ end_doc @ ''B'' @ end_doc @ ''C''))
     = ''AB'' @ end_doc @ ''C''"
  by code_simp

section \<open>C3: a destination title that is not found\<close>

text \<open>
  Claim C3 says that every mapping entry whose destination title is not found becomes a
  Pending Creation, for \<^verbatim>\<open>section_mapping\<close> and \<^verbatim>\<open>new_sections_content\<close> alike. The loop
  over \<^verbatim>\<open>section_mapping\<close> only warns in that case: with the mapping of \<^verbatim>\<open>Intro\<close> (present
  in the source) to \<^verbatim>\<open>Nope\<close> (absent from the destination) nothing is collected and the
  destination text comes out unchanged.
\<close>

theorem mapping_to_missing_title_counterexample:
  "map_of (extract_sections old_intro) ''Intro''
     = Some \<lparr>s_content = ''Hello'', s_level = ''section'', s_line = bs # ''section{Intro}'',
             s_rank = 1\<rparr>
   \<and> find_section_in_template new_intro ''Nope'' True = None
   \<and> collect \<lparr>mapping_mode = ''full_hierarchy'', section_mapping = [(''Intro'', ''Nope'')],
               new_sections_content = []\<rparr> old_intro new_intro = ([], [])
   \<and> migrate_content \<lparr>mapping_mode = ''full_hierarchy'',
               section_mapping = [(''Intro'', ''Nope'')],
               new_sections_content = []\<rparr> old_intro new_intro = new_intro"
  by code_simp

text \<open>
  Claim C3, amended: when the Marker Locator finds no span for a title in the untouched
  destination text, an entry of \<^verbatim>\<open>new_sections_content\<close> with that title is recorded as a
  Pending Creation (with its content trimmed); an entry of \<^verbatim>\<open>section_mapping\<close> with that
  destination title records nothing, neither a Replacement Operation nor a Pending
  Creation, so the collected lists are those of the configuration without the entry; and
  the Pending Creations, when there are some and the spliced text holds a terminator, are
  inserted as one block, followed by a newline, immediately before the first terminator.
\<close>

theorem missing_destination_title:
  assumes "find_section_in_template new_content t (mapping_mode cfg \<noteq> ''granular'') = None"
  shows "((t, c) \<in> set (new_sections_content cfg)
            \<longrightarrow> \<lparr>c_title = t, c_content = strip c\<rparr>
                  \<in> set (snd (collect cfg old_content new_content)))
       \<and> collect (cfg\<lparr>section_mapping := pre @ (old_section, t) # post\<rparr>)
             old_content new_content
           = collect (cfg\<lparr>section_mapping := pre @ post\<rparr>) old_content new_content
       \<and> (creates \<noteq> [] \<and> search_lit end_doc mc = Some pos
            \<longrightarrow> create_sections ns os creates mc
                  = take pos mc @ concat (map (created_text ns os) creates) @ [nl]
                      @ drop pos mc
                \<and> starts_with end_doc (drop pos mc)
                \<and> (\<forall>j<pos. \<not> starts_with end_doc (drop j mc)))"
proof (intro conjI impI)
  assume "(t, c) \<in> set (new_sections_content cfg)"
  then show "\<lparr>c_title = t, c_content = strip c\<rparr>
               \<in> set (snd (collect cfg old_content new_content))"
    using assms by (simp add: collect_def Let_def collect_new_creates)
next
  show "collect (cfg\<lparr>section_mapping := pre @ (old_section, t) # post\<rparr>)
             old_content new_content
           = collect (cfg\<lparr>section_mapping := pre @ post\<rparr>) old_content new_content"
    using assms by (simp add: collect_def Let_def collect_mapping_skip)
next
  assume a: "creates \<noteq> [] \<and> search_lit end_doc mc = Some pos"
  then show "create_sections ns os creates mc
                  = take pos mc @ concat (map (created_text ns os) creates) @ [nl]
                      @ drop pos mc"
    by (simp add: create_sections_def)
  show "starts_with end_doc (drop pos mc)"
    using a search_lit_Some[of end_doc mc pos] by simp
  show "\<forall>j<pos. \<not> starts_with end_doc (drop j mc)"
    using a search_lit_Some[of end_doc mc pos] by simp
qed

text \<open>
  An instance: \<^verbatim>\<open>Acknowledgments\<close> is absent from the destination; the entry of
  \<^verbatim>\<open>new_sections_content\<close> is recorded and inserted before the terminator at offset 32,
  the entry of \<^verbatim>\<open>section_mapping\<close> changes nothing.
\<close>

theorem missing_destination_title_witness:
  "find_section_in_template new_intro ''Acknowledgments''
      (mapping_mode cfg_thanks \<noteq> ''granular'') = None
   \<and> (''Acknowledgments'', ''Thanks.'') \<in> set (new_sections_content cfg_thanks)
   \<and> \<lparr>c_title = ''Acknowledgments'', c_content = strip ''Thanks.''\<rparr>
        \<in> set (snd (collect cfg_thanks old_intro new_intro))
   \<and> collect (cfg_thanks\<lparr>section_mapping := [] @ (''Intro'', ''Acknowledgments'') # []\<rparr>)
        old_intro new_intro
      = collect (cfg_thanks\<lparr>section_mapping := [] @ []\<rparr>) old_intro new_intro
   \<and> search_lit end_doc new_intro = Some 32
   \<and> create_sections [] [] [\<lparr>c_title = ''Acknowledgments'', c_content = ''Thanks.''\<rparr>]
        new_intro
      = take 32 new_intro
          @ concat (map (created_text [] [])
                      [\<lparr>c_title = ''Acknowledgments'', c_content = ''Thanks.''\<rparr>])
          @ [nl] @ drop 32 new_intro"
proof -
  have h: "find_section_in_template new_intro ''Acknowledgments''
      (mapping_mode cfg_thanks \<noteq> ''granular'') = None"
    by code_simp
  have m: "(''Acknowledgments'', ''Thanks.'') \<in> set (new_sections_content cfg_thanks)"
    by (simp add: cfg_thanks_def)
  have p: "search_lit end_doc new_intro = Some 32"
    by code_simp
  note t = missing_destination_title[OF h, of "''Thanks.''" old_intro "[]" "''Intro''" "[]"
      "[\<lparr>c_title = ''Acknowledgments'', c_content = ''Thanks.''\<rparr>]" new_intro 32 "[]" "[]"]
  show ?thesis using t h m p by simp
qed

section \<open>C4: which occurrence the Marker Locator returns\<close>

text \<open>
  Claim C4 says that the Marker Locator returns the occurrence of the title at the
  earliest offset among the five kinds. The loop of \<^verbatim>\<open>find_section_in_template\<close> tries
  the kinds in the order chapter, section, subsection, subsubsection, paragraph, each
  over the whole text, and returns at the first kind that matches: with
  \<^verbatim>\<open>\subsection{X}\<close> at offset 0 and \<^verbatim>\<open>\section{X}\<close> at offset 24 it returns the span of
  the section, which starts at offset 35.
\<close>

theorem locator_kind_order_counterexample:
  "match_title_at ''subsection'' ''X'' (drop 0 two_kinds_text) = Some 14
   \<and> match_title_at ''section'' ''X'' (drop 24 two_kinds_text) = Some 11
   \<and> find_section_in_template two_kinds_text ''X'' True = Some (35, 44, ''section'')
   \<and> find_section_in_template two_kinds_text ''X'' False = Some (35, 44, ''section'')"
  by code_simp

text \<open>
  Claim C4, amended: when the title occurs as the brace argument of a marker of some
  kind, the Marker Locator returns a span; its kind is the first kind, in the order
  chapter, section, subsection, subsubsection, paragraph, that occurs with this title
  anywhere in the text; the span starts at the end of the leftmost occurrence of that
  kind; and it ends where \<^const>\<open>section_end\<close> says. Occurrences of later kinds are
  ignored, also at earlier offsets.
\<close>

theorem locator_first_kind_in_order:
  assumes "k0 \<in> set sections_pattern"
    and "match_title_at k0 title (drop i0 text) \<noteq> None"
  shows "\<exists>s e lvl pre post ms.
           find_section_in_template text title inc = Some (s, e, lvl)
           \<and> sections_pattern = pre @ lvl # post
           \<and> (\<forall>k\<in>set pre. \<forall>i. match_title_at k title (drop i text) = None)
           \<and> match_title_at lvl title (drop ms text) = Some (s - ms) \<and> ms \<le> s
           \<and> (\<forall>i<ms. match_title_at lvl title (drop i text) = None)
           \<and> e = section_end text s lvl inc"
proof -
  have "search_title k0 title text \<noteq> None"
  proof
    assume "search_title k0 title text = None"
    then have "match_title_at k0 title (drop i0 text) = None"
      by (rule search_title_None)
    with assms(2) show False by simp
  qed
  then have "\<not> (\<forall>k\<in>set sections_pattern. search_title k title text = None)"
    using assms(1) by auto
  then have "find_section_in_template text title inc \<noteq> None"
    unfolding find_section_in_template_def find_in_patterns_None .
  then obtain s e lvl where f: "find_section_in_template text title inc = Some (s, e, lvl)"
    by (cases "find_section_in_template text title inc") auto
  then obtain pre post ms where p: "sections_pattern = pre @ lvl # post"
      "\<forall>k\<in>set pre. search_title k title text = None"
      "search_title lvl title text = Some (ms, s)"
      "e = section_end text s lvl inc"
    using find_in_patterns_Some[of sections_pattern "text" title inc s e lvl]
    by (auto simp: find_section_in_template_def)
  have q: "\<forall>k\<in>set pre. \<forall>i. match_title_at k title (drop i text) = None"
    using p(2) search_title_None by blast
  have r: "match_title_at lvl title (drop ms text) = Some (s - ms)" "ms \<le> s"
    "\<forall>i<ms. match_title_at lvl title (drop i text) = None"
    using search_title_Some[OF p(3)] by simp_all
  show ?thesis
    using f p(1,4) q r
    by (intro exI[of _ s] exI[of _ e] exI[of _ lvl] exI[of _ pre] exI[of _ post]
        exI[of _ ms]) simp
qed

text \<open>An instance: the text of the counterexample, where the subsection comes first.\<close>

theorem locator_first_kind_in_order_witness:
  "''subsection'' \<in> set sections_pattern
   \<and> match_title_at ''subsection'' ''X'' (drop 0 two_kinds_text) \<noteq> None
   \<and> (\<exists>s e lvl pre post ms.
           find_section_in_template two_kinds_text ''X'' True = Some (s, e, lvl)
           \<and> sections_pattern = pre @ lvl # post
           \<and> (\<forall>k\<in>set pre. \<forall>i. match_title_at k ''X'' (drop i two_kinds_text) = None)
           \<and> match_title_at lvl ''X'' (drop ms two_kinds_text) = Some (s - ms) \<and> ms \<le> s
           \<and> (\<forall>i<ms. match_title_at lvl ''X'' (drop i two_kinds_text) = None)
           \<and> e = section_end two_kinds_text s lvl True)"
proof -
  have a: "''subsection'' \<in> set sections_pattern"
    by code_simp
  have b: "match_title_at ''subsection'' ''X'' (drop 0 two_kinds_text) \<noteq> None"
    by code_simp
  show ?thesis
    by (rule conjI[OF a conjI[OF b locator_first_kind_in_order[OF a b]]])
qed

section \<open>C5: where a located span ends\<close>

text \<open>
  Claim C5. For a marker the Marker Locator has found, with the span starting at \<open>s\<close>, the
  text from \<open>s\<close> on is split into lines and scanned from the first one (the rest of the
  marker's own line). If a line holds the terminator and no earlier line holds the
  terminator or a boundary marker, the span ends immediately before that line, whatever
  markers the line holds as well: the span is the earlier lines joined by newlines. If a
  line holds a boundary marker and no earlier line holds the terminator or a boundary
  marker, the span ends immediately before that line in the same way. If no line holds
  either, the span ends at the end of the text. A boundary marker is, under the
  include-children policy, a marker of rank at most the rank of the target, and under the
  exclude-children policy a marker of any rank.
\<close>

theorem locator_span_end:
  assumes "find_section_in_template text title inc = Some (s, e, lvl)"
  shows "(\<forall>i<length (split_nl (drop s text)).
            search_lit end_doc (split_nl (drop s text) ! i) \<noteq> None
            \<and> (\<forall>j<i. search_lit end_doc (split_nl (drop s text) ! j) = None
                      \<and> \<not> boundary_marker inc (get_section_level_rank lvl)
                             (split_nl (drop s text) ! j))
            \<longrightarrow> e = s + length (join_nl (take i (split_nl (drop s text))))
                \<and> take (e - s) (drop s text) = join_nl (take i (split_nl (drop s text))))
       \<and> (\<forall>i<length (split_nl (drop s text)).
            boundary_marker inc (get_section_level_rank lvl) (split_nl (drop s text) ! i)
            \<and> (\<forall>j<i. search_lit end_doc (split_nl (drop s text) ! j) = None
                      \<and> \<not> boundary_marker inc (get_section_level_rank lvl)
                             (split_nl (drop s text) ! j))
            \<longrightarrow> e = s + length (join_nl (take i (split_nl (drop s text))))
                \<and> take (e - s) (drop s text) = join_nl (take i (split_nl (drop s text))))
       \<and> ((\<forall>l\<in>set (split_nl (drop s text)).
              search_lit end_doc l = None
              \<and> \<not> boundary_marker inc (get_section_level_rank lvl) l)
            \<longrightarrow> e = length text)
       \<and> (\<forall>cur l. boundary_marker True cur l
              = (\<exists>k\<in>set sections_pattern.
                   search_marker k l \<noteq> None \<and> get_section_level_rank k \<le> cur))
       \<and> (\<forall>cur l. boundary_marker False cur l
              = (\<exists>k\<in>set sections_pattern. search_marker k l \<noteq> None))"
proof -
  let ?lines = "split_nl (drop s text)"
  let ?cur = "get_section_level_rank lvl"
  have e: "e = section_end text s lvl inc"
    by (rule find_section_in_template_end[OF assms])
  have first: "e = s + length (join_nl (take i ?lines))
                \<and> take (e - s) (drop s text) = join_nl (take i ?lines)"
    if "i < length ?lines" "stop_line inc ?cur (?lines ! i)"
      "\<forall>j<i. \<not> stop_line inc ?cur (?lines ! j)" for i
  proof -
    have "scan_end inc ?cur s ?lines (length ([]::string list)) ?lines
            = Some (s + length (join_nl (take i ?lines)))"
      using that by (intro scan_end_first_stop) auto
    then have 1: "e = s + length (join_nl (take i ?lines))"
      using e by (simp add: section_end_def)
    have "take (length (join_nl (take i ?lines))) (join_nl ?lines) = join_nl (take i ?lines)"
      by (rule take_join_nl_take)
    then show ?thesis using 1 by (simp add: join_split_nl)
  qed
  have none: "e = length text" if "\<forall>l\<in>set ?lines. \<not> stop_line inc ?cur l"
  proof -
    have "scan_end inc ?cur s ?lines 0 ?lines = None"
      using that by (rule scan_end_no_stop)
    then show ?thesis using e by (simp add: section_end_def)
  qed
  have p1: "\<forall>i<length ?lines.
            search_lit end_doc (?lines ! i) \<noteq> None
            \<and> (\<forall>j<i. search_lit end_doc (?lines ! j) = None
                      \<and> \<not> boundary_marker inc ?cur (?lines ! j))
            \<longrightarrow> e = s + length (join_nl (take i ?lines))
                \<and> take (e - s) (drop s text) = join_nl (take i ?lines)"
  proof (intro allI impI)
    fix i
    assume a: "i < length ?lines"
      and b: "search_lit end_doc (?lines ! i) \<noteq> None
            \<and> (\<forall>j<i. search_lit end_doc (?lines ! j) = None
                      \<and> \<not> boundary_marker inc ?cur (?lines ! j))"
    from b have "stop_line inc ?cur (?lines ! i)" "\<forall>j<i. \<not> stop_line inc ?cur (?lines ! j)"
      by (simp_all add: stop_line_def)
    then show "e = s + length (join_nl (take i ?lines))
                \<and> take (e - s) (drop s text) = join_nl (take i ?lines)"
      by (rule first[OF a])
  qed
  have p2: "\<forall>i<length ?lines.
            boundary_marker inc ?cur (?lines ! i)
            \<and> (\<forall>j<i. search_lit end_doc (?lines ! j) = None
                      \<and> \<not> boundary_marker inc ?cur (?lines ! j))
            \<longrightarrow> e = s + length (join_nl (take i ?lines))
                \<and> take (e - s) (drop s text) = join_nl (take i ?lines)"
  proof (intro allI impI)
    fix i
    assume a: "i < length ?lines"
      and b: "boundary_marker inc ?cur (?lines ! i)
            \<and> (\<forall>j<i. search_lit end_doc (?lines ! j) = None
                      \<and> \<not> boundary_marker inc ?cur (?lines ! j))"
    from b have "stop_line inc ?cur (?lines ! i)" "\<forall>j<i. \<not> stop_line inc ?cur (?lines ! j)"
      by (simp_all add: stop_line_def)
    then show "e = s + length (join_nl (take i ?lines))
                \<and> take (e - s) (drop s text) = join_nl (take i ?lines)"
      by (rule first[OF a])
  qed
  have p3: "(\<forall>l\<in>set ?lines. search_lit end_doc l = None \<and> \<not> boundary_marker inc ?cur l)
            \<longrightarrow> e = length text"
    using none by (simp add: stop_line_def)
  have p4: "\<forall>cur l. boundary_marker True cur l
              = (\<exists>k\<in>set sections_pattern.
                   search_marker k l \<noteq> None \<and> get_section_level_rank k \<le> cur)"
    by (simp add: boundary_marker_def should_stop_def list_ex_iff)
  have p5: "\<forall>cur l. boundary_marker False cur l
              = (\<exists>k\<in>set sections_pattern. search_marker k l \<noteq> None)"
    by (simp add: boundary_marker_def should_stop_def list_ex_iff)
  show ?thesis using p1 p2 p3 p4 p5 by (intro conjI)
qed

text \<open>
  An instance: in Scenario E, under the exclude-children policy, the span of \<^verbatim>\<open>A\<close> ends
  before the line of \<^verbatim>\<open>\subsection{B}\<close>.
\<close>

theorem locator_span_end_witness:
  "find_section_in_template nested_doc ''A'' False = Some (11, 18, ''section'')
   \<and> split_nl (drop 11 nested_doc) = ['''', '' text1'', bs # ''subsection{B}'', '' text2'']
   \<and> boundary_marker False (get_section_level_rank ''section'') (bs # ''subsection{B}'')
   \<and> 18 = 11 + length (join_nl (take 2 (split_nl (drop 11 nested_doc))))
   \<and> take (18 - 11) (drop 11 nested_doc) = join_nl (take 2 (split_nl (drop 11 nested_doc)))"
proof -
  have h: "find_section_in_template nested_doc ''A'' False = Some (11, 18, ''section'')"
    by code_simp
  have l: "split_nl (drop 11 nested_doc)
             = ['''', '' text1'', bs # ''subsection{B}'', '' text2'']"
    by code_simp
  have a: "2 < length (split_nl (drop 11 nested_doc))"
    by code_simp
  have b: "boundary_marker False (get_section_level_rank ''section'')
             (split_nl (drop 11 nested_doc) ! 2)"
    by code_simp
  have b': "boundary_marker False (get_section_level_rank ''section'')
              (bs # ''subsection{B}'')"
    by code_simp
  have c0: "search_lit end_doc (split_nl (drop 11 nested_doc) ! 0) = None
            \<and> \<not> boundary_marker False (get_section_level_rank ''section'')
                   (split_nl (drop 11 nested_doc) ! 0)"
    by code_simp
  have c1: "search_lit end_doc (split_nl (drop 11 nested_doc) ! 1) = None
            \<and> \<not> boundary_marker False (get_section_level_rank ''section'')
                   (split_nl (drop 11 nested_doc) ! 1)"
    by code_simp
  have c: "\<forall>j<2. search_lit end_doc (split_nl (drop 11 nested_doc) ! j) = None
            \<and> \<not> boundary_marker False (get_section_level_rank ''section'')
                   (split_nl (drop 11 nested_doc) ! j)"
  proof (intro allI impI)
    fix j :: nat
    assume "j < 2"
    then have "j = 0 \<or> j = 1" by arith
    then show "search_lit end_doc (split_nl (drop 11 nested_doc) ! j) = None
            \<and> \<not> boundary_marker False (get_section_level_rank ''section'')
                   (split_nl (drop 11 nested_doc) ! j)"
      using c0 c1 by auto
  qed
  note t = conjunct1[OF conjunct2[OF locator_span_end[OF h]]]
  have r: "18 = 11 + length (join_nl (take 2 (split_nl (drop 11 nested_doc))))
           \<and> take (18 - 11) (drop 11 nested_doc)
               = join_nl (take 2 (split_nl (drop 11 nested_doc)))"
    using t a b c by blast
  show ?thesis by (rule conjI[OF h conjI[OF l conjI[OF b' r]]])
qed

section \<open>C6: content after the terminator\<close>

text \<open>
  Claim C6. Content after the retained terminator is to be moved before it when a
  structural marker of any of the five kinds, chapter included, follows the terminator.
  The pattern the script searches after the terminator lists section, subsection,
  subsubsection and paragraph, and not chapter, although \<^verbatim>\<open>\chapter{Stray}\<close> is a marker
  for the Marker Scanner: a text whose only marker after the terminator is a chapter is
  returned as it is.
\<close>

theorem stray_chapter_not_relocated:
  "first_match sections_pattern (bs # ''chapter{Stray}'') = Some (''chapter'', ''Stray'')
   \<and> normalize_terminator stray_chapter_text = stray_chapter_text"
  by code_simp

text \<open>The same text with a section in place of the chapter is relocated (Scenario D).\<close>

lemma stray_section_relocated:
  "normalize_terminator (''a'' @ end_doc @ [nl] @ bs # ''section{Stray}'' @ [nl] @ ''x'')
     = ''a'' @ [nl] @ bs # ''section{Stray}'' @ [nl] @ ''x'' @ [nl, nl] @ end_doc @ [nl]"
  by code_simp

section \<open>C7: content-only content inside full-hierarchy content\<close>

text \<open>
  Claim C7. For every document and every title of the content-only extraction, the
  full-hierarchy extraction has an entry for the same title, and the content-only content
  is a contiguous part of the full-hierarchy content.
\<close>

theorem content_only_within_full_hierarchy:
  assumes "map_of (extract_sections_content_only doc) t = Some c"
  shows "\<exists>f. map_of (extract_sections doc) t = Some f \<and> sublist (s_content c) (s_content f)"
proof -
  let ?lines = "split_nl doc"
  let ?occs = "scan_sections 0 ?lines"
  have "t \<in> o_title ` set ?occs"
    using assms build_content_only_titles[of ?lines ?occs "[]" t c]
    by (simp add: extract_sections_content_only_def Let_def)
  then have "t \<in> set (map o_title ?occs)" by simp
  then obtain ts1 ts2 where ts: "map o_title ?occs = ts1 @ t # ts2" "t \<notin> set ts2"
    by (meson split_list_last)
  then obtain xs x ys where sp: "?occs = xs @ x # ys" "o_title x = t" "map o_title ys = ts2"
    by (auto simp: map_eq_append_conv Cons_eq_map_conv)
  have last: "\<forall>y\<in>set ys. o_title y \<noteq> o_title x"
  proof (intro ballI notI)
    fix y
    assume "y \<in> set ys" "o_title y = o_title x"
    then have "t \<in> o_title ` set ys" using sp(2) by (metis imageI)
    then show False using ts(2) sp(3) by (metis list.set_map)
  qed
  have srt: "sorted_wrt (\<lambda>a b. o_line_idx a < o_line_idx b) ys"
    using scan_sections_sorted[of 0 ?lines] sp(1) by (simp add: sorted_wrt_append)
  have bound: "\<forall>y\<in>set ys. o_line_idx y \<le> length ?lines"
    using scan_sections_idx[of _ 0 ?lines] sp(1) by fastforce
  have le: "end_content_only (length ?lines) ys \<le> end_full (length ?lines) (o_rank x) ys"
    by (rule end_content_only_le_full[OF srt bound])
  have c: "c = entry_of ?lines x (end_content_only (length ?lines) ys)"
    using assms build_content_only_last[OF last, of ?lines xs "[]"] sp
    by (simp add: extract_sections_content_only_def Let_def)
  have f: "map_of (extract_sections doc) t
             = Some (entry_of ?lines x (end_full (length ?lines) (o_rank x) ys))"
    using build_full_last[OF last, of ?lines xs "[]"] sp
    by (simp add: extract_sections_def Let_def)
  show ?thesis using f c entry_content_prefix[OF le] by auto
qed

text \<open>An instance: Scenario E, the title \<^verbatim>\<open>A\<close>.\<close>

theorem content_only_within_full_hierarchy_witness:
  "map_of (extract_sections_content_only nested_doc) ''A''
     = Some \<lparr>s_content = ''text1'', s_level = ''section'', s_line = bs # ''section{A}'',
             s_rank = 1\<rparr>
   \<and> map_of (extract_sections nested_doc) ''A''
     = Some \<lparr>s_content = ''text1'' @ [nl] @ bs # ''subsection{B}'' @ [nl] @ '' text2'',
             s_level = ''section'', s_line = bs # ''section{A}'', s_rank = 1\<rparr>
   \<and> sublist ''text1'' (''text1'' @ [nl] @ bs # ''subsection{B}'' @ [nl] @ '' text2'')"
proof -
  have h: "map_of (extract_sections_content_only nested_doc) ''A''
     = Some \<lparr>s_content = ''text1'', s_level = ''section'', s_line = bs # ''section{A}'',
             s_rank = 1\<rparr>"
    by code_simp
  have g: "map_of (extract_sections nested_doc) ''A''
     = Some \<lparr>s_content = ''text1'' @ [nl] @ bs # ''subsection{B}'' @ [nl] @ '' text2'',
             s_level = ''section'', s_line = bs # ''section{A}'', s_rank = 1\<rparr>"
    by code_simp
  have "sublist ''text1'' (''text1'' @ [nl] @ bs # ''subsection{B}'' @ [nl] @ '' text2'')"
    using content_only_within_full_hierarchy[OF h] unfolding g by simp
  then show ?thesis using h g by blast
qed

section \<open>C8: markers with the same title\<close>

text \<open>
  Claim C8. When \<open>x\<close> is the last occurrence of its title in a document (whatever
  occurrences of the same title come before it), both extractions hold exactly one entry
  for that title, and its content and metadata are those of \<open>x\<close>: the later occurrence
  wins, and nothing reports the earlier ones.
\<close>

theorem duplicate_title_last_wins:
  assumes "scan_sections 0 (split_nl doc) = xs @ x # ys"
    and "\<forall>y\<in>set ys. o_title y \<noteq> o_title x"
  shows "filter (\<lambda>p. fst p = o_title x) (extract_sections doc)
           = [(o_title x, entry_of (split_nl doc) x
                 (end_full (length (split_nl doc)) (o_rank x) ys))]
       \<and> filter (\<lambda>p. fst p = o_title x) (extract_sections_content_only doc)
           = [(o_title x, entry_of (split_nl doc) x
                 (end_content_only (length (split_nl doc)) ys))]"
proof
  show "filter (\<lambda>p. fst p = o_title x) (extract_sections doc)
           = [(o_title x, entry_of (split_nl doc) x
                 (end_full (length (split_nl doc)) (o_rank x) ys))]"
    using build_full_last[OF assms(2), of "split_nl doc" xs "[]"] assms(1)
      build_full_distinct[of "[]" "split_nl doc" "xs @ x # ys"]
    by (intro distinct_keys_one_entry) (simp_all add: extract_sections_def Let_def)
  show "filter (\<lambda>p. fst p = o_title x) (extract_sections_content_only doc)
           = [(o_title x, entry_of (split_nl doc) x
                 (end_content_only (length (split_nl doc)) ys))]"
    using build_content_only_last[OF assms(2), of "split_nl doc" xs "[]"] assms(1)
      build_content_only_distinct[of "[]" "split_nl doc" "xs @ x # ys"]
    by (intro distinct_keys_one_entry) (simp_all add: extract_sections_content_only_def Let_def)
qed

text \<open>An instance: two sections titled \<^verbatim>\<open>R\<close>, with bodies \<^verbatim>\<open>a\<close> and \<^verbatim>\<open>b\<close>.\<close>

theorem duplicate_title_last_wins_witness:
  "scan_sections 0 (split_nl duplicate_doc) = [occ_R 0] @ occ_R 2 # []
   \<and> (filter (\<lambda>p. fst p = ''R'') (extract_sections duplicate_doc)
       = [(''R'', \<lparr>s_content = ''b'', s_level = ''section'', s_line = bs # ''section{R}'',
                   s_rank = 1\<rparr>)]
   \<and> filter (\<lambda>p. fst p = ''R'') (extract_sections_content_only duplicate_doc)
       = [(''R'', \<lparr>s_content = ''b'', s_level = ''section'', s_line = bs # ''section{R}'',
                   s_rank = 1\<rparr>)])"
proof -
  have h: "scan_sections 0 (split_nl duplicate_doc) = [occ_R 0] @ occ_R 2 # []"
    by code_simp
  have e0: "\<forall>y\<in>set []. o_title y \<noteq> o_title (occ_R 2)"
    by simp
  have e1: "entry_of (split_nl duplicate_doc) (occ_R 2)
              (end_full (length (split_nl duplicate_doc)) (o_rank (occ_R 2)) [])
            = \<lparr>s_content = ''b'', s_level = ''section'', s_line = bs # ''section{R}'',
                s_rank = 1\<rparr>"
    by code_simp
  have e2: "entry_of (split_nl duplicate_doc) (occ_R 2)
              (end_content_only (length (split_nl duplicate_doc)) [])
            = \<lparr>s_content = ''b'', s_level = ''section'', s_line = bs # ''section{R}'',
                s_rank = 1\<rparr>"
    by code_simp
  have t: "o_title (occ_R 2) = ''R''"
    by (simp add: occ_R_def)
  note r = duplicate_title_last_wins[OF h e0, unfolded e1 e2 t]
  show ?thesis by (rule conjI[OF h r])
qed

section \<open>C9: a source title that is absent\<close>

text \<open>
  Claim C9. An entry of \<^verbatim>\<open>section_mapping\<close> whose source title is not among the sections
  extracted from the source document is skipped: the Replacement Operations and Pending
  Creations collected are those of the configuration without the entry, and so is the
  text produced. The model has no error result, as the script raises nowhere on this
  path.
\<close>

theorem absent_source_title_skipped:
  assumes "map_of (extract_by_mode (mapping_mode cfg) old_content) old_section = None"
  shows "collect (cfg\<lparr>section_mapping := pre @ (old_section, new_section) # post\<rparr>)
             old_content new_content
           = collect (cfg\<lparr>section_mapping := pre @ post\<rparr>) old_content new_content
       \<and> migrate_content (cfg\<lparr>section_mapping := pre @ (old_section, new_section) # post\<rparr>)
             old_content new_content
           = migrate_content (cfg\<lparr>section_mapping := pre @ post\<rparr>) old_content new_content"
proof -
  have c: "collect (cfg\<lparr>section_mapping := pre @ (old_section, new_section) # post\<rparr>)
             old_content new_content
           = collect (cfg\<lparr>section_mapping := pre @ post\<rparr>) old_content new_content"
    using assms by (simp add: collect_def Let_def collect_mapping_skip)
  then show ?thesis by (simp add: migrate_content_def)
qed

text \<open>An instance: the source title \<^verbatim>\<open>Missing\<close>; the destination text is returned as it is.\<close>

theorem absent_source_title_skipped_witness:
  "map_of (extract_by_mode (mapping_mode cfg_empty) old_intro) ''Missing'' = None
   \<and> collect (cfg_empty\<lparr>section_mapping := [] @ (''Missing'', ''Introduction'') # []\<rparr>)
        old_intro new_intro
      = collect (cfg_empty\<lparr>section_mapping := [] @ []\<rparr>) old_intro new_intro
   \<and> migrate_content
        (cfg_empty\<lparr>section_mapping := [] @ (''Missing'', ''Introduction'') # []\<rparr>)
        old_intro new_intro
      = migrate_content (cfg_empty\<lparr>section_mapping := [] @ []\<rparr>) old_intro new_intro
   \<and> migrate_content (cfg_empty\<lparr>section_mapping := [] @ []\<rparr>) old_intro new_intro
      = new_intro"
proof -
  have h: "map_of (extract_by_mode (mapping_mode cfg_empty) old_intro) ''Missing'' = None"
    by code_simp
  have r: "migrate_content (cfg_empty\<lparr>section_mapping := [] @ []\<rparr>) old_intro new_intro
      = new_intro"
    by code_simp
  note t = absent_source_title_skipped[OF h, of "[]" "''Introduction''" "[]" new_intro]
  show ?thesis by (rule conjI[OF h conjI[OF conjunct1[OF t] conjI[OF conjunct2[OF t] r]]])
qed

section \<open>C10: where a located span starts\<close>

text \<open>
  Claim C10 says that the span starts right after the closing brace of the title, so that
  the text following the marker on its line lies inside the span and is discarded by the
  replacement. The start is as claimed, but the rest of the marker's line is the first
  line the scan for the end looks at: when it holds the terminator or a boundary marker
  the span is empty, and the text after the marker is kept. In
  \<^verbatim>\<open>\section{A} tail \section{B}\<close> the span of \<^verbatim>\<open>A\<close> is \<open>[11, 11)\<close> under both policies, and
  the replacement leaves \<^verbatim>\<open> tail \section{B}\<close> in place after the new content.
\<close>

theorem same_line_text_kept_counterexample:
  "find_section_in_template same_line_text ''A'' True = Some (11, 11, ''section'')
   \<and> find_section_in_template same_line_text ''A'' False = Some (11, 11, ''section'')
   \<and> apply_replacement same_line_text
        \<lparr>r_start = 11, r_end = 11, r_content = ''NEW'', r_old_section = ''S'',
         r_new_section = ''A'', r_type = ''section_mapping''\<rparr>
      = bs # ''section{A}'' @ [nl] @ ''NEW'' @ [nl] @ '' tail '' @ bs # ''section{B}''"
  by code_simp

text \<open>
  Claim C10, amended: the span of a located marker starts at the offset immediately after
  the closing brace of the marker (starred or not), on the marker's own line, and lies
  within the text. When the rest of that line holds neither the terminator nor a boundary
  marker, it lies inside the span; when it holds one of them the span is empty. The
  replacement keeps the text before the span's start and from the span's end on, and
  discards the span.
\<close>

theorem locator_span_start:
  assumes "find_section_in_template text title inc = Some (s, e, lvl)"
  shows "(\<exists>ms<s. take (s - ms) (drop ms text) = bs # lvl @ ''{'' @ title @ ''}''
               \<or> take (s - ms) (drop ms text) = bs # lvl @ ''*{'' @ title @ ''}'')
       \<and> s \<le> e \<and> e \<le> length text
       \<and> (search_lit end_doc (takeWhile (\<lambda>c. c \<noteq> nl) (drop s text)) = None
          \<and> \<not> boundary_marker inc (get_section_level_rank lvl)
                 (takeWhile (\<lambda>c. c \<noteq> nl) (drop s text))
          \<longrightarrow> s + length (takeWhile (\<lambda>c. c \<noteq> nl) (drop s text)) \<le> e)
       \<and> (search_lit end_doc (takeWhile (\<lambda>c. c \<noteq> nl) (drop s text)) \<noteq> None
          \<or> boundary_marker inc (get_section_level_rank lvl)
               (takeWhile (\<lambda>c. c \<noteq> nl) (drop s text))
          \<longrightarrow> e = s)
       \<and> apply_replacement text
            \<lparr>r_start = s, r_end = e, r_content = c, r_old_section = old,
             r_new_section = title, r_type = ty\<rparr>
          = take s text @ [nl] @ c @ [nl] @ drop e text"
proof -
  let ?lines = "split_nl (drop s text)"
  let ?cur = "get_section_level_rank lvl"
  let ?line0 = "takeWhile (\<lambda>c. c \<noteq> nl) (drop s text)"
  obtain ms where ms: "search_title lvl title text = Some (ms, s)"
    using find_section_in_template_start[OF assms] by blast
  have m: "ms \<le> length text" "match_title_at lvl title (drop ms text) = Some (s - ms)" "ms \<le> s"
    using search_title_Some[OF ms] by simp_all
  have mt: "0 < s - ms"
    "take (s - ms) (drop ms text) = bs # lvl @ ''*{'' @ title @ ''}''
     \<or> take (s - ms) (drop ms text) = bs # lvl @ ''{'' @ title @ ''}''"
    using match_title_at_Some[OF m(2)] by simp_all
  have p1: "\<exists>ms<s. take (s - ms) (drop ms text) = bs # lvl @ ''{'' @ title @ ''}''
               \<or> take (s - ms) (drop ms text) = bs # lvl @ ''*{'' @ title @ ''}''"
    using mt by (intro exI[of _ ms]) auto
  have sl: "s \<le> length text" by (rule search_title_bound[OF ms])
  have e: "e = section_end text s lvl inc"
    by (rule find_section_in_template_end[OF assms])
  have p2: "s \<le> e \<and> e \<le> length text"
    using section_end_bounds[OF sl, of lvl inc] e by simp
  have l0: "?lines ! 0 = ?line0"
    using hd_split_nl[of "drop s text"] split_nl_nonempty[of "drop s text"]
    by (simp add: hd_conv_nth)
  have p3: "s + length ?line0 \<le> e" if ns: "\<not> stop_line inc ?cur ?line0"
  proof -
    consider (none) "e = length text"
      | (first) i where "i < length ?lines" "stop_line inc ?cur (?lines ! i)"
          "e = s + length (join_nl (take i ?lines))"
      using section_end_cases[of s "text" inc lvl] e by auto
    then show ?thesis
    proof cases
      case none
      have "length ?line0 \<le> length (drop s text)"
        by (rule length_takeWhile_le)
      then show ?thesis using none sl by simp
    next
      case first
      then have "i \<noteq> 0" using ns l0 by (cases i) auto
      then obtain i' where i': "i = Suc i'" by (cases i) auto
      obtain l ls where ls: "?lines = l # ls"
        using split_nl_nonempty[of "drop s text"] by (cases ?lines) auto
      then have "l = ?line0" using l0 by simp
      then have "length ?line0 \<le> length (join_nl (take i ?lines))"
        unfolding i' ls by (cases "take i' ls") auto
      then show ?thesis using first(3) by simp
    qed
  qed
  have p5: "e = s" if st: "stop_line inc ?cur ?line0"
  proof -
    have "0 < length ?lines"
      using split_nl_nonempty[of "drop s text"] by simp
    then have "scan_end inc ?cur s ?lines (length ([]::string list)) ?lines
            = Some (s + length (join_nl (take 0 ?lines)))"
      using st l0 by (intro scan_end_first_stop) auto
    then show ?thesis using e by (simp add: section_end_def)
  qed
  have p4: "apply_replacement text
            \<lparr>r_start = s, r_end = e, r_content = c, r_old_section = old,
             r_new_section = title, r_type = ty\<rparr>
          = take s text @ [nl] @ c @ [nl] @ drop e text"
    by (simp add: apply_replacement_def)
  show ?thesis using p1 p2 p3 p4 p5 by (simp add: stop_line_def)
qed

text \<open>
  An instance: in \<^verbatim>\<open>\section{A} tail\<close> followed by a line of body and \<^verbatim>\<open>\section{B}\<close>, the
  text \<^verbatim>\<open> tail\<close> is inside the span \<open>[11, 21)\<close> and is discarded.
\<close>

theorem locator_span_start_witness:
  "find_section_in_template tail_text ''A'' True = Some (11, 21, ''section'')
   \<and> takeWhile (\<lambda>c. c \<noteq> nl) (drop 11 tail_text) = '' tail''
   \<and> search_lit end_doc '' tail'' = None
   \<and> \<not> boundary_marker True (get_section_level_rank ''section'') '' tail''
   \<and> 11 + length (takeWhile (\<lambda>c. c \<noteq> nl) (drop 11 tail_text)) \<le> 21
   \<and> apply_replacement tail_text
        \<lparr>r_start = 11, r_end = 21, r_content = ''NEW'', r_old_section = ''S'',
         r_new_section = ''A'', r_type = ''section_mapping''\<rparr>
      = bs # ''section{A}'' @ [nl] @ ''NEW'' @ [nl] @ [nl] @ bs # ''section{B}'' @ [nl] @ ''x''"
proof -
  have h: "find_section_in_template tail_text ''A'' True = Some (11, 21, ''section'')"
    by code_simp
  have l: "takeWhile (\<lambda>c. c \<noteq> nl) (drop 11 tail_text) = '' tail''"
    by code_simp
  have a: "search_lit end_doc '' tail'' = None"
    by code_simp
  have b: "\<not> boundary_marker True (get_section_level_rank ''section'') '' tail''"
    by code_simp
  have v: "take 11 tail_text @ [nl] @ ''NEW'' @ [nl] @ drop 21 tail_text
      = bs # ''section{A}'' @ [nl] @ ''NEW'' @ [nl] @ [nl] @ bs # ''section{B}'' @ [nl] @ ''x''"
    by code_simp
  note t = locator_span_start[OF h, of "''NEW''" "''S''" "''section_mapping''"]
  have r: "11 + length (takeWhile (\<lambda>c. c \<noteq> nl) (drop 11 tail_text)) \<le> 21"
    using t a b unfolding l by blast
  have w: "apply_replacement tail_text
        \<lparr>r_start = 11, r_end = 21, r_content = ''NEW'', r_old_section = ''S'',
         r_new_section = ''A'', r_type = ''section_mapping''\<rparr>
      = bs # ''section{A}'' @ [nl] @ ''NEW'' @ [nl] @ [nl] @ bs # ''section{B}'' @ [nl] @ ''x''"
    using t v by simp
  show ?thesis by (rule conjI[OF h conjI[OF l conjI[OF a conjI[OF b conjI[OF r w]]]]])
qed

end
